theory Spec2Isabelle
  imports Main "HOL-Library.Word" "HOL-Library.AList"
begin

section \<open>The query tree of qtree.go\<close>

text \<open>
  The development follows \<^verbatim>\<open>src/qtree/qtree.go\<close>. Nodes are Go objects reached through
  pointers, so they live in a heap: a list of node records, a pointer being an index into
  it (or \<open>None\<close> for \<^verbatim>\<open>nil\<close>). Allocation appends to the heap, and nothing is ever
  taken out of it: a node that the tree has dropped stays where it is, as garbage that a
  subscriber may still hold. An index at or beyond the end of the heap refers to no
  object; Go has no such pointer. \<^verbatim>\<open>AddChild\<close>, \<^verbatim>\<open>Dispose\<close> and
  \<^verbatim>\<open>ApplyTreeMutation\<close> answer it with a panic, the elementary steps leave the state as
  it is.
\<close>

type_synonym addr = nat
type_synonym uint32 = "32 word"

subsection \<open>The schema (package ast of graphql-go)\<close>

datatype ast_Type = Named string | ListType ast_Type | NonNull ast_Type

datatype FieldDefinition = FieldDefinition (field_Name: string) (field_Type: ast_Type)

text \<open>
  \<^verbatim>\<open>ast.TypeDefinition\<close> is an interface; the code only asks whether a value is an
  \<^verbatim>\<open>*ast.ObjectDefinition\<close>. Every other definition (scalar, enum, union, ...) is
  \<open>OtherDefinition\<close>. A nil interface value is \<open>None\<close> at type \<open>TypeDefinition option\<close>.
\<close>

datatype TypeDefinition =
    ObjectDefinition (od_Name: string) (od_Fields: "FieldDefinition list")
  | OtherDefinition string

subsection \<open>Protocol messages (package proto of rgraphql)\<close>

datatype FieldArgument = FieldArgument (arg_Name: string) (arg_VariableId: uint32)

datatype RGQLQueryTreeNode =
  RGQLQueryTreeNode (data_Id: uint32) (data_FieldName: string)
    (data_Args: "FieldArgument list") (data_Children: "RGQLQueryTreeNode list")

datatype ASTVariable = ASTVariable (var_Id: uint32) (var_JsonValue: string)

datatype SubtreeOperation = SUBTREE_ADD_CHILD | SUBTREE_DELETE | SUBTREE_OTHER int

text \<open>The \<open>Node\<close> of a node mutation is a pointer and may be nil.\<close>

datatype NodeMutation =
  NodeMutation (aqn_NodeId: uint32) (aqn_Operation: SubtreeOperation)
    (aqn_Node: "RGQLQueryTreeNode option")

datatype RGQLTreeMutation =
  RGQLTreeMutation (mut_NodeMutation: "NodeMutation list") (mut_Variables: "ASTVariable list")

subsection \<open>The variable store\<close>

text \<open>
  Modelled from the spec: the type \<^verbatim>\<open>VariableStore\<close> with \<^verbatim>\<open>NewVariableStore\<close>,
  \<^verbatim>\<open>Put\<close>, \<^verbatim>\<open>Get\<close>, \<^verbatim>\<open>GarbageCollect\<close> and \<^verbatim>\<open>VariableReference.Unsubscribe\<close> is
  not in \<^verbatim>\<open>qtree.go\<close>. The spec gives its contract: bindings keyed by an identifier,
  reference-counted lookup (\<open>Get\<close> answers not-found for an absent id), release of a
  reference, and a sweep that reclaims the bindings with zero outstanding references.
  \<open>refs\<close> counts the outstanding references of each variable; \<open>calls\<close> records the calls
  made on the store, in order.
\<close>

datatype store_call = CallPut ASTVariable | CallGet uint32 | CallUnsubscribe uint32
  | CallGarbageCollect

record VariableStore =
  bindings :: "uint32 \<rightharpoonup> string"
  refs :: "uint32 \<Rightarrow> nat"
  calls :: "store_call list"

text \<open>A reference names the variable it was obtained for.\<close>

datatype VariableReference = VariableReference (ref_Id: uint32)

definition NewVariableStore :: VariableStore where
  "NewVariableStore = \<lparr>bindings = Map.empty, refs = (\<lambda>_. 0), calls = []\<rparr>"

definition Put :: "ASTVariable \<Rightarrow> VariableStore \<Rightarrow> VariableStore" where
  "Put v vs = vs\<lparr>bindings := (bindings vs)(var_Id v \<mapsto> var_JsonValue v),
                 calls := calls vs @ [CallPut v]\<rparr>"

definition Get :: "uint32 \<Rightarrow> VariableStore \<Rightarrow> VariableReference option \<times> VariableStore" where
  "Get i vs =
     (case bindings vs i of
        None \<Rightarrow> (None, vs\<lparr>calls := calls vs @ [CallGet i]\<rparr>)
      | Some _ \<Rightarrow> (Some (VariableReference i),
                   vs\<lparr>refs := (refs vs)(i := Suc (refs vs i)), calls := calls vs @ [CallGet i]\<rparr>))"

definition Unsubscribe :: "VariableReference \<Rightarrow> VariableStore \<Rightarrow> VariableStore" where
  "Unsubscribe r vs =
     vs\<lparr>refs := (refs vs)(ref_Id r := refs vs (ref_Id r) - 1),
        calls := calls vs @ [CallUnsubscribe (ref_Id r)]\<rparr>"

definition GarbageCollect :: "VariableStore \<Rightarrow> VariableStore" where
  "GarbageCollect vs =
     vs\<lparr>bindings := (\<lambda>i. if refs vs i = 0 then None else bindings vs i),
        calls := calls vs @ [CallGarbageCollect]\<rparr>"

subsection \<open>Nodes, slices and the state\<close>

text \<open>
  A Go slice is a window \<^verbatim>\<open>a[0:len]\<close> on a backing array of \<^verbatim>\<open>cap\<close> slots. \<open>elems\<close> are
  the slots inside the window, \<open>spare\<close> the slots of the backing array behind it. The
  slots behind the window matter once: a \<^verbatim>\<open>range\<close> loop keeps the header it started with
  and goes on reading the backing array after \<^verbatim>\<open>removeChild\<close> has shortened the window.
  The nil slice has no slots.
\<close>

record slice =
  elems :: "addr option list"
  spare :: "addr option list"

definition nil_slice :: slice where
  "nil_slice = \<lparr>elems = [], spare = []\<rparr>"

definition backing :: "slice \<Rightarrow> addr option list" where
  "backing sl = elems sl @ spare sl"

text \<open>
  \<^verbatim>\<open>append(sl, x)\<close> writes \<open>x\<close> into the first slot behind the window when there is one
  and into a larger array otherwise; either way the window grows by \<open>x\<close> and one spare
  slot, if any, is used up.
\<close>

definition append_slice :: "slice \<Rightarrow> addr \<Rightarrow> slice" where
  "append_slice sl x = \<lparr>elems = elems sl @ [Some x], spare = tl (spare sl)\<rparr>"

datatype UpdateOperation = Operation_AddChild | Operation_DelChild | Operation_Delete

datatype QTNodeUpdate = QTNodeUpdate (upd_Operation: UpdateOperation) (upd_Child: "addr option")

text \<open>
  \<open>RootNodeMap\<close> and \<open>Arguments\<close> are Go maps and may be nil (\<open>None\<close>). \<open>Arguments\<close> is
  iterated over, so it is an association list, updated with \<open>AList.update\<close>. The
  \<open>subscribers\<close> map is kept as the list of its keys: the handle stored under a key holds
  only that key and the node. The unused field \<^verbatim>\<open>idCounter\<close> and the mutex are left out;
  \<^verbatim>\<open>SchemaResolver\<close> and \<^verbatim>\<open>VariableStore\<close>, which every node copies from its parent, are
  kept once, in the state.
\<close>

record QueryTreeNode =
  Id :: uint32
  Root :: "addr option"
  Parent :: "addr option"
  Children :: slice
  RootNodeMap :: "(uint32 \<rightharpoonup> addr) option"
  FieldName :: string
  AST :: "TypeDefinition option"
  IsPrimitive :: bool
  PrimitiveName :: string
  Arguments :: "(string \<times> VariableReference) list option"
  subCtr :: uint32
  subscribers :: "uint32 list"

datatype error = DuplicateNodeId | NotSelectable | UnknownField | UnresolvedType
  | UnknownVariable

text \<open>
  The outcome of a call: \<open>Done\<close> is a normal return (a nil error), \<open>Failed e\<close> a returned
  error, \<open>Panic\<close> a run-time panic (a nil dereference, a write to a nil map).
\<close>

datatype result = Done | Failed error | Panic

text \<open>
  \<open>types_IsPrimitive\<close> stands for the function \<^verbatim>\<open>types.IsPrimitive\<close>, which is not in
  \<^verbatim>\<open>qtree.go\<close>; it is a parameter of the tree. \<open>delivered\<close> lists the calls of
  \<^verbatim>\<open>nextChange\<close>: the node published on, the subscription that received the update, and
  the update. \<open>stdout\<close> lists the errors printed by \<^verbatim>\<open>ApplyTreeMutation\<close>.
\<close>

record state =
  heap :: "QueryTreeNode list"
  SchemaResolver :: "ast_Type \<Rightarrow> TypeDefinition option"
  types_IsPrimitive :: "string \<Rightarrow> bool"
  VariableStore :: VariableStore
  delivered :: "(addr \<times> uint32 \<times> QTNodeUpdate) list"
  stdout :: "error list"

definition node_at :: "state \<Rightarrow> addr \<Rightarrow> QueryTreeNode option" where
  "node_at s a = (if a < length (heap s) then Some (heap s ! a) else None)"

definition set_node :: "addr \<Rightarrow> QueryTreeNode \<Rightarrow> state \<Rightarrow> state" where
  "set_node a n s = s\<lparr>heap := (heap s)[a := n]\<rparr>"

subsection \<open>NewQueryTree\<close>

definition NewQueryTree ::
  "string \<Rightarrow> FieldDefinition list \<Rightarrow> (ast_Type \<Rightarrow> TypeDefinition option) \<Rightarrow> (string \<Rightarrow> bool) \<Rightarrow> state"
where
  "NewQueryTree rootName rootFields schemaResolver isPrimitive =
     \<lparr>heap = [\<lparr>Id = 0, Root = Some 0, Parent = None, Children = nil_slice,
               RootNodeMap = Some [0 \<mapsto> 0], FieldName = [],
               AST = Some (ObjectDefinition rootName rootFields),
               IsPrimitive = False, PrimitiveName = [], Arguments = None,
               subCtr = 0, subscribers = []\<rparr>],
      SchemaResolver = schemaResolver, types_IsPrimitive = isPrimitive,
      VariableStore = NewVariableStore, delivered = [], stdout = []\<rparr>"

subsection \<open>Subscriptions\<close>

definition SubscribeChanges :: "addr \<Rightarrow> state \<Rightarrow> uint32 option \<times> state" where
  "SubscribeChanges qt s =
     (case node_at s qt of
        None \<Rightarrow> (None, s)
      | Some q \<Rightarrow>
          (Some (subCtr q),
           set_node qt (q\<lparr>subCtr := subCtr q + 1,
                          subscribers := (if subCtr q \<in> set (subscribers q) then subscribers q
                                          else subscribers q @ [subCtr q])\<rparr>) s))"

definition removeSubscription :: "addr \<Rightarrow> uint32 \<Rightarrow> state \<Rightarrow> state" where
  "removeSubscription qt i s =
     (case node_at s qt of
        None \<Rightarrow> s
      | Some q \<Rightarrow> set_node qt (q\<lparr>subscribers := removeAll i (subscribers q)\<rparr>) s)"

text \<open>
  \<^verbatim>\<open>nextUpdate\<close> hands the update to every subscription of the node. Go iterates over
  the map in no fixed order; the model delivers in the order of subscription.

  Modelled from the spec: the handle type \<^verbatim>\<open>qtNodeSubscription\<close> and its method
  \<^verbatim>\<open>nextChange\<close> are not in \<^verbatim>\<open>qtree.go\<close>. The spec has the event delivered
  synchronously to every registered observer; the model records each delivery in
  \<open>delivered\<close> and does nothing else.
\<close>

definition nextUpdate :: "addr \<Rightarrow> QTNodeUpdate \<Rightarrow> state \<Rightarrow> state" where
  "nextUpdate qt update s =
     (case node_at s qt of
        None \<Rightarrow> s
      | Some q \<Rightarrow> s\<lparr>delivered := delivered s @ map (\<lambda>sub. (qt, sub, update)) (subscribers q)\<rparr>)"

subsection \<open>removeChild\<close>

text \<open>
  The loop stops at the first slot that holds \<open>nod\<close>. \<^verbatim>\<open>copy(a[i:], a[i+1:])\<close> moves the
  slots after it one place down, which \<open>remove1\<close> does on the window; \<^verbatim>\<open>a[len(a)-1] = nil\<close>
  clears the last slot of the old window, and \<^verbatim>\<open>a[:len(a)-1]\<close> leaves that slot behind the
  new window, in front of the spare slots.
\<close>

definition removeChild :: "addr \<Rightarrow> addr \<Rightarrow> state \<Rightarrow> state" where
  "removeChild qt nod s =
     (case node_at s qt of
        None \<Rightarrow> s
      | Some q \<Rightarrow>
          if Some nod \<in> set (elems (Children q)) then
            nextUpdate qt (QTNodeUpdate Operation_DelChild (Some nod))
              (set_node qt (q\<lparr>Children := \<lparr>elems = remove1 (Some nod) (elems (Children q)),
                                            spare = None # spare (Children q)\<rparr>\<rparr>) s)
          else s)"

subsection \<open>AddChild\<close>

text \<open>
  Lines 111 to 123: one list wrapper is taken off, then one non-null wrapper.
\<close>

definition unwrapType :: "ast_Type \<Rightarrow> ast_Type" where
  "unwrapType t =
     (let selectedType = (case t of ListType u \<Rightarrow> u | _ \<Rightarrow> t)
      in (case selectedType of NonNull u \<Rightarrow> u | _ \<Rightarrow> selectedType))"

text \<open>
  Lines 116 to 141: the type definition, \<open>isPrimitive\<close> and \<open>primitiveName\<close> of the new
  node. A primitive keeps the nil \<open>selectedTypeDef\<close>; anything else is looked up in the
  schema, and a nil answer is an error.
\<close>

definition classifyField ::
  "state \<Rightarrow> FieldDefinition \<Rightarrow> error + (TypeDefinition option \<times> bool \<times> string)"
where
  "classifyField s selectedField =
     (let selectedType = unwrapType (field_Type selectedField);
          primitive = (case selectedType of
                         Named n \<Rightarrow> if types_IsPrimitive s n then Some n else None
                       | _ \<Rightarrow> None)
      in case primitive of
           Some primitiveName \<Rightarrow> Inr (None, True, primitiveName)
         | None \<Rightarrow>
             (case SchemaResolver s selectedType of
                None \<Rightarrow> Inl UnresolvedType
              | Some selectedTypeDef \<Rightarrow> Inr (Some selectedTypeDef, False, [])))"

text \<open>
  Lines 143 to 154: the loop over \<^verbatim>\<open>data.Args\<close>. When a variable is missing, the
  references held in \<open>argMap\<close> are released. \<^verbatim>\<open>argMap[arg.Name] = vref\<close> replaces the
  entry of a name that is already there.
\<close>

fun acquireArguments ::
  "FieldArgument list \<Rightarrow> (string \<times> VariableReference) list \<Rightarrow> VariableStore
     \<Rightarrow> (string \<times> VariableReference) list option \<times> VariableStore"
where
  "acquireArguments [] argMap vs = (Some argMap, vs)"
| "acquireArguments (arg # args) argMap vs =
     (case Get (arg_VariableId arg) vs of
        (None, vs') \<Rightarrow> (None, fold (\<lambda>marg. Unsubscribe (snd marg)) argMap vs')
      | (Some vref, vs') \<Rightarrow> acquireArguments args (AList.update (arg_Name arg) vref argMap) vs')"

text \<open>
  Lines 88 to 169: the checks, in the order of the source, and the record of the new
  node. \<open>Inl\<close> is an early return. The duplicate test reads \<^verbatim>\<open>qt.RootNodeMap\<close>, the map
  of the receiver; reading a nil map finds nothing.
\<close>

definition validateChild ::
  "addr \<Rightarrow> RGQLQueryTreeNode \<Rightarrow> state \<Rightarrow> (result \<times> state) + (QueryTreeNode \<times> state)"
where
  "validateChild qt data s =
     (case node_at s qt of
        None \<Rightarrow> Inl (Panic, s)
      | Some q \<Rightarrow>
          if (case RootNodeMap q of None \<Rightarrow> False | Some m \<Rightarrow> m (data_Id data) \<noteq> None)
          then Inl (Failed DuplicateNodeId, s)
          else
            (case AST q of
               Some (ObjectDefinition odName odFields) \<Rightarrow>
                 (case find (\<lambda>field. field_Name field = data_FieldName data) odFields of
                    None \<Rightarrow> Inl (Failed UnknownField, s)
                  | Some selectedField \<Rightarrow>
                      (case classifyField s selectedField of
                         Inl e \<Rightarrow> Inl (Failed e, s)
                       | Inr (selectedTypeDef, isPrimitive, primitiveName) \<Rightarrow>
                           (case acquireArguments (data_Args data) [] (VariableStore s) of
                              (None, vs) \<Rightarrow> Inl (Failed UnknownVariable, s\<lparr>VariableStore := vs\<rparr>)
                            | (Some argMap, vs) \<Rightarrow>
                                Inr (\<lparr>Id = data_Id data, Root = Root q, Parent = Some qt,
                                      Children = nil_slice, RootNodeMap = None,
                                      FieldName = data_FieldName data, AST = selectedTypeDef,
                                      IsPrimitive = isPrimitive, PrimitiveName = primitiveName,
                                      Arguments = Some argMap, subCtr = 0, subscribers = []\<rparr>,
                                     s\<lparr>VariableStore := vs\<rparr>))))
             | _ \<Rightarrow> Inl (Failed NotSelectable, s)))"

text \<open>
  \<^verbatim>\<open>qt.Root.RootNodeMap[i] = a\<close> (line 172): a nil root or a nil map panics.
\<close>

definition rootMapInsert :: "addr \<Rightarrow> uint32 \<Rightarrow> addr \<Rightarrow> state \<Rightarrow> result \<times> state" where
  "rootMapInsert qt i a s =
     (case node_at s qt of
        None \<Rightarrow> (Panic, s)
      | Some q \<Rightarrow>
          (case Root q of
             None \<Rightarrow> (Panic, s)
           | Some r \<Rightarrow>
               (case node_at s r of
                  None \<Rightarrow> (Panic, s)
                | Some rn \<Rightarrow>
                    (case RootNodeMap rn of
                       None \<Rightarrow> (Panic, s)
                     | Some m \<Rightarrow> (Done, set_node r (rn\<lparr>RootNodeMap := Some (m(i \<mapsto> a))\<rparr>) s)))))"

text \<open>
  \<^verbatim>\<open>delete(qt.Root.RootNodeMap, i)\<close>, reached only with a root (line 178 follows an
  insertion that found it, line 252 tests it); deleting from a nil map does nothing.
\<close>

definition rootMapDelete :: "addr \<Rightarrow> uint32 \<Rightarrow> state \<Rightarrow> state" where
  "rootMapDelete qt i s =
     (case node_at s qt of
        None \<Rightarrow> s
      | Some q \<Rightarrow>
          (case Root q of
             None \<Rightarrow> s
           | Some r \<Rightarrow>
               (case node_at s r of
                  None \<Rightarrow> s
                | Some rn \<Rightarrow>
                    (case RootNodeMap rn of
                       None \<Rightarrow> s
                     | Some m \<Rightarrow> set_node r (rn\<lparr>RootNodeMap := Some (m(i := None))\<rparr>) s))))"

text \<open>\<^verbatim>\<open>qt.Children = append(qt.Children, nnod)\<close> (line 170).\<close>

definition appendChild :: "addr \<Rightarrow> addr \<Rightarrow> state \<Rightarrow> state" where
  "appendChild qt a s =
     (case node_at s qt of
        None \<Rightarrow> s
      | Some q \<Rightarrow> set_node qt (q\<lparr>Children := append_slice (Children q) a\<rparr>) s)"

text \<open>
  Lines 157 to 172: the node is allocated at the end of the heap, appended to the
  children of \<open>qt\<close> and entered in the map of the root. A panic of the last step comes
  after the append.
\<close>

definition insertChild :: "addr \<Rightarrow> QueryTreeNode \<Rightarrow> state \<Rightarrow> result \<times> state" where
  "insertChild qt nnod s =
     rootMapInsert qt (Id nnod) (length (heap s))
       (appendChild qt (length (heap s)) (s\<lparr>heap := heap s @ [nnod]\<rparr>))"

text \<open>
  Lines 175 to 180, the deferred function when \<open>addChildErr\<close> is not nil:
  \<^verbatim>\<open>qt.removeChild(nnod)\<close>, then \<^verbatim>\<open>delete(qt.Root.RootNodeMap, nnod.Id)\<close>.
\<close>

definition rollbackChild :: "addr \<Rightarrow> addr \<Rightarrow> state \<Rightarrow> state" where
  "rollbackChild qt nnod s =
     (case node_at s nnod of
        None \<Rightarrow> removeChild qt nnod s
      | Some nn \<Rightarrow> rootMapDelete qt (Id nn) (removeChild qt nnod s))"

text \<open>
  \<open>AddChild\<close> itself, with the loop over \<^verbatim>\<open>data.Children\<close> (lines 183 to 187) as
  \<open>AddChildren\<close>. The first failing child ends the loop; the deferred function then undoes
  the insertion of this call's node. A panic leaves \<open>addChildErr\<close> nil, so nothing is
  undone. Only a call whose children all succeed publishes the update (lines 190 to 193).
\<close>

fun AddChild :: "addr \<Rightarrow> RGQLQueryTreeNode \<Rightarrow> state \<Rightarrow> result \<times> state"
  and AddChildren :: "addr \<Rightarrow> RGQLQueryTreeNode list \<Rightarrow> state \<Rightarrow> result \<times> state"
where
  "AddChild qt (RGQLQueryTreeNode i f args children) s =
     (case validateChild qt (RGQLQueryTreeNode i f args children) s of
        Inl r \<Rightarrow> r
      | Inr (nnod, s1) \<Rightarrow>
          (case insertChild qt nnod s1 of
             (Done, s2) \<Rightarrow>
               (case AddChildren (length (heap s1)) children s2 of
                  (Done, s3) \<Rightarrow>
                    (Done, nextUpdate qt (QTNodeUpdate Operation_AddChild (Some (length (heap s1)))) s3)
                | (Failed e, s3) \<Rightarrow> (Failed e, rollbackChild qt (length (heap s1)) s3)
                | (Panic, s3) \<Rightarrow> (Panic, s3))
           | (r, s2) \<Rightarrow> (r, s2)))"
| "AddChildren nnod [] s = (Done, s)"
| "AddChildren nnod (child # rest) s =
     (case AddChild nnod child s of
        (Done, s1) \<Rightarrow> AddChildren nnod rest s1
      | (r, s1) \<Rightarrow> (r, s1))"

subsection \<open>Dispose\<close>

text \<open>
  Slot \<open>i\<close> of the backing array of the children of node \<open>a\<close>. The \<^verbatim>\<open>range\<close> loop of
  \<^verbatim>\<open>Dispose\<close> evaluates \<^verbatim>\<open>qt.Children\<close> once and then reads slot after slot of that
  array, while the \<^verbatim>\<open>removeChild\<close> calls made by the children it disposes move and clear
  slots of the same array. The node keeps that array for as long as the loop runs: only
  \<^verbatim>\<open>append\<close>, which \<^verbatim>\<open>Dispose\<close> never calls, and line 250 of a \<^verbatim>\<open>Dispose\<close> of the
  same node, which would take a cycle through \<open>Children\<close>, give a node another array. A
  slot beyond the array of the model is a slot of the Go array that was never written: nil.
\<close>

definition child_slot :: "addr \<Rightarrow> nat \<Rightarrow> state \<Rightarrow> addr option" where
  "child_slot a i s =
     (case node_at s a of
        None \<Rightarrow> None
      | Some q \<Rightarrow> if i < length (backing (Children q)) then backing (Children q) ! i else None)"

text \<open>
  Lines 250 to 262, what \<^verbatim>\<open>Dispose\<close> does to the node itself once the loop is over, one
  definition for each statement.
\<close>

definition clearChildren :: "addr \<Rightarrow> state \<Rightarrow> state" where
  "clearChildren a s =
     (case node_at s a of None \<Rightarrow> s | Some q \<Rightarrow> set_node a (q\<lparr>Children := nil_slice\<rparr>) s)"

definition deleteFromIndex :: "addr \<Rightarrow> state \<Rightarrow> state" where
  "deleteFromIndex a s =
     (case node_at s a of None \<Rightarrow> s | Some q \<Rightarrow> rootMapDelete a (Id q) s)"

definition detachFromParent :: "addr \<Rightarrow> state \<Rightarrow> state" where
  "detachFromParent a s =
     (case node_at s a of
        None \<Rightarrow> s
      | Some q \<Rightarrow> (case Parent q of None \<Rightarrow> s | Some p \<Rightarrow> removeChild p a s))"

definition releaseArguments :: "addr \<Rightarrow> state \<Rightarrow> state" where
  "releaseArguments a s =
     (case node_at s a of
        None \<Rightarrow> s
      | Some q \<Rightarrow>
          (case Arguments q of
             None \<Rightarrow> s
           | Some argMap \<Rightarrow>
               (set_node a (q\<lparr>Arguments := None\<rparr>) s)
                 \<lparr>VariableStore := fold (\<lambda>arg. Unsubscribe (snd arg)) argMap (VariableStore s)\<rparr>))"

definition disposeSelf :: "addr \<Rightarrow> state \<Rightarrow> state" where
  "disposeSelf a s =
     releaseArguments a (detachFromParent a (deleteFromIndex a (clearChildren a s)))"

text \<open>
  \<^verbatim>\<open>Dispose\<close> recurses through the heap, which need not be a tree, so it takes fuel: the
  depth of recursion allowed. \<open>None\<close> is a run that needed more. The receiver is a pointer
  and may be nil: \<^verbatim>\<open>nextUpdate\<close> then dereferences nil and panics. \<open>disposeChildren\<close> is
  the loop of lines 247 to 249 at index \<open>i\<close> with \<open>k\<close> iterations to go, the length being
  fixed when the loop starts.
\<close>

fun Dispose :: "nat \<Rightarrow> addr option \<Rightarrow> state \<Rightarrow> (result \<times> state) option"
  and disposeChildren :: "nat \<Rightarrow> addr \<Rightarrow> nat \<Rightarrow> nat \<Rightarrow> state \<Rightarrow> (result \<times> state) option"
where
  "Dispose 0 qt s = None"
| "Dispose (Suc fuel) None s = Some (Panic, s)"
| "Dispose (Suc fuel) (Some a) s =
     (case node_at s a of
        None \<Rightarrow> Some (Panic, s)
      | Some q \<Rightarrow>
          (case disposeChildren fuel a 0 (length (elems (Children q)))
                  (nextUpdate a (QTNodeUpdate Operation_Delete None) s) of
             None \<Rightarrow> None
           | Some (Done, s1) \<Rightarrow> Some (Done, disposeSelf a s1)
           | Some (r, s1) \<Rightarrow> Some (r, s1)))"
| "disposeChildren fuel a i 0 s = Some (Done, s)"
| "disposeChildren fuel a i (Suc k) s =
     (case Dispose fuel (child_slot a i s) s of
        None \<Rightarrow> None
      | Some (Done, s1) \<Rightarrow> disposeChildren fuel a (Suc i) k s1
      | Some (r, s1) \<Rightarrow> Some (r, s1))"

subsection \<open>ApplyTreeMutation\<close>

text \<open>
  Line 58, \<^verbatim>\<open>qt.Root.RootNodeMap[aqn.NodeId]\<close>: \<open>Inl\<close> is the panic of a nil \<open>Root\<close>,
  \<open>Inr None\<close> a key that is not there (also in a nil map).
\<close>

definition lookupNode :: "addr \<Rightarrow> uint32 \<Rightarrow> state \<Rightarrow> unit + addr option" where
  "lookupNode qt i s =
     (case node_at s qt of
        None \<Rightarrow> Inl ()
      | Some q \<Rightarrow>
          (case Root q of
             None \<Rightarrow> Inl ()
           | Some r \<Rightarrow>
               (case node_at s r of
                  None \<Rightarrow> Inl ()
                | Some rn \<Rightarrow> (case RootNodeMap rn of None \<Rightarrow> Inr None | Some m \<Rightarrow> Inr (m i)))))"

text \<open>
  One iteration of the loop of lines 56 to 75. An error of \<^verbatim>\<open>AddChild\<close> is printed and
  the loop goes on. \<^verbatim>\<open>AddChild\<close> reads \<^verbatim>\<open>data.Id\<close> first, so a nil \<open>Node\<close> panics. The
  \<^verbatim>\<open>switch\<close> has no default case.
\<close>

definition applyNodeMutation ::
  "nat \<Rightarrow> addr \<Rightarrow> NodeMutation \<Rightarrow> state \<Rightarrow> (result \<times> state) option"
where
  "applyNodeMutation fuel qt aqn s =
     (case lookupNode qt (aqn_NodeId aqn) s of
        Inl _ \<Rightarrow> Some (Panic, s)
      | Inr None \<Rightarrow> Some (Done, s)
      | Inr (Some nod) \<Rightarrow>
          (case aqn_Operation aqn of
             SUBTREE_ADD_CHILD \<Rightarrow>
               (case aqn_Node aqn of
                  None \<Rightarrow> Some (Panic, s)
                | Some data \<Rightarrow>
                    (case AddChild nod data s of
                       (Failed err, s1) \<Rightarrow> Some (Done, s1\<lparr>stdout := stdout s1 @ [err]\<rparr>)
                     | (r, s1) \<Rightarrow> Some (r, s1)))
           | SUBTREE_DELETE \<Rightarrow>
               if aqn_NodeId aqn \<noteq> 0 \<and> Some nod \<noteq> Root (heap s ! qt)
               then Dispose fuel (Some nod) s
               else Some (Done, s)
           | SUBTREE_OTHER _ \<Rightarrow> Some (Done, s)))"

fun applyNodeMutations ::
  "nat \<Rightarrow> addr \<Rightarrow> NodeMutation list \<Rightarrow> state \<Rightarrow> (result \<times> state) option"
where
  "applyNodeMutations fuel qt [] s = Some (Done, s)"
| "applyNodeMutations fuel qt (aqn # rest) s =
     (case applyNodeMutation fuel qt aqn s of
        None \<Rightarrow> None
      | Some (Done, s1) \<Rightarrow> applyNodeMutations fuel qt rest s1
      | Some (r, s1) \<Rightarrow> Some (r, s1))"

text \<open>
  Lines 50 to 79. The fuel is what the \<^verbatim>\<open>Dispose\<close> calls of the batch may use.
\<close>

definition ApplyTreeMutation ::
  "nat \<Rightarrow> addr \<Rightarrow> RGQLTreeMutation \<Rightarrow> state \<Rightarrow> (result \<times> state) option"
where
  "ApplyTreeMutation fuel qt mutation s =
     (case node_at s qt of
        None \<Rightarrow> Some (Panic, s)
      | Some _ \<Rightarrow>
     (case applyNodeMutations fuel qt (mut_NodeMutation mutation)
             (s\<lparr>VariableStore := fold Put (mut_Variables mutation) (VariableStore s)\<rparr>) of
        None \<Rightarrow> None
      | Some (Done, s1) \<Rightarrow> Some (Done, s1\<lparr>VariableStore := GarbageCollect (VariableStore s1)\<rparr>)
      | Some (r, s1) \<Rightarrow> Some (r, s1)))"

subsection \<open>States the program can reach\<close>

text \<open>
  A state is reachable when it is built by \<^verbatim>\<open>NewQueryTree\<close> and the exported operations.
  A call that panics may be recovered by its caller, so the state it leaves counts too.
\<close>

inductive reachable :: "state \<Rightarrow> bool" where
  reach_New: "reachable (NewQueryTree rootName rootFields schemaResolver isPrimitive)"
| reach_AddChild: "reachable s \<Longrightarrow> AddChild qt data s = (r, s') \<Longrightarrow> reachable s'"
| reach_Dispose: "reachable s \<Longrightarrow> Dispose fuel (Some a) s = Some (r, s') \<Longrightarrow> reachable s'"
| reach_Apply:
    "reachable s \<Longrightarrow> ApplyTreeMutation fuel qt mutation s = Some (r, s') \<Longrightarrow> reachable s'"
| reach_Subscribe: "reachable s \<Longrightarrow> SubscribeChanges qt s = (i, s') \<Longrightarrow> reachable s'"
| reach_removeSubscription: "reachable s \<Longrightarrow> reachable (removeSubscription qt i s)"

text \<open>
  What holds of the node at address \<open>a\<close> in every reachable state: a primitive node has no
  type definition, no index of its own and no children; the children of a node were
  allocated after it; and no subscription is listed twice.
\<close>

definition node_ok :: "addr \<Rightarrow> QueryTreeNode \<Rightarrow> bool" where
  "node_ok a n \<longleftrightarrow>
     (IsPrimitive n \<longrightarrow> AST n = None \<and> RootNodeMap n = None \<and> elems (Children n) = [])
     \<and> (\<forall>c. Some c \<in> set (backing (Children n)) \<longrightarrow> a < c)
     \<and> distinct (subscribers n)"

definition tree_ok :: "state \<Rightarrow> bool" where
  "tree_ok s \<longleftrightarrow> (\<forall>a < length (heap s). node_ok a (heap s ! a))"

text \<open>Every update delivered so far names no child or a node that has been allocated.\<close>

definition events_ok :: "state \<Rightarrow> bool" where
  "events_ok s \<longleftrightarrow>
     (\<forall>e \<in> set (delivered s). \<forall>c. upd_Child (snd (snd e)) = Some c \<longrightarrow> c < length (heap s))"

text \<open>
  The deliveries that publishing \<open>update\<close> on the node \<open>qt\<close> makes in state \<open>s\<close>: one to
  each subscription of \<open>qt\<close>.
\<close>

definition published ::
  "addr \<Rightarrow> QTNodeUpdate \<Rightarrow> state \<Rightarrow> (addr \<times> uint32 \<times> QTNodeUpdate) list"
where
  "published qt update s =
     (case node_at s qt of
        None \<Rightarrow> []
      | Some q \<Rightarrow> map (\<lambda>sub. (qt, sub, update)) (subscribers q))"

text \<open>
  The deliveries of a call \<^verbatim>\<open>qt.AddChild(d)\<close> made in state \<open>s\<close> with outcome \<open>r\<close>. The new
  node, when there is one, is at the address \<open>length (heap s)\<close>.
\<close>

definition AddChild_deliveries ::
  "addr \<Rightarrow> RGQLQueryTreeNode \<Rightarrow> state \<Rightarrow> result \<Rightarrow> (addr \<times> uint32 \<times> QTNodeUpdate) list"
where
  "AddChild_deliveries qt d s r =
     (case r of
        Done \<Rightarrow> published qt (QTNodeUpdate Operation_AddChild (Some (length (heap s)))) s
      | Failed e \<Rightarrow>
          (case validateChild qt d s of
             Inl _ \<Rightarrow> []
           | Inr _ \<Rightarrow> published qt (QTNodeUpdate Operation_DelChild (Some (length (heap s)))) s)
      | Panic \<Rightarrow> [])"

text \<open>The calls that acquire or release a reference, as opposed to \<open>Put\<close> and the sweep.\<close>

fun is_ref_call :: "store_call \<Rightarrow> bool" where
  "is_ref_call (CallGet _) = True"
| "is_ref_call (CallUnsubscribe _) = True"
| "is_ref_call (CallPut _) = False"
| "is_ref_call CallGarbageCollect = False"

text \<open>From \<open>s\<close> to \<open>s'\<close> the store saw only such calls.\<close>

definition ref_calls_only :: "state \<Rightarrow> state \<Rightarrow> bool" where
  "ref_calls_only s s' \<longleftrightarrow>
     (\<exists>mid. calls (VariableStore s') = calls (VariableStore s) @ mid \<and> list_all is_ref_call mid)"

text \<open>
  What a call of \<^verbatim>\<open>AddChild\<close> on \<open>qt\<close> leaves alone between \<open>s\<close> and \<open>s'\<close>: the heap only
  grows; no node that was there changes its subscriptions, its id or its parent, and none
  but \<open>qt\<close> its children; the nodes that are new have no subscription.
\<close>

definition frame :: "addr \<Rightarrow> state \<Rightarrow> state \<Rightarrow> bool" where
  "frame qt s s' \<longleftrightarrow>
     length (heap s) \<le> length (heap s')
     \<and> (\<forall>a < length (heap s).
           subscribers (heap s' ! a) = subscribers (heap s ! a)
           \<and> Id (heap s' ! a) = Id (heap s ! a)
           \<and> Parent (heap s' ! a) = Parent (heap s ! a)
           \<and> (a \<noteq> qt \<longrightarrow> Children (heap s' ! a) = Children (heap s ! a)))
     \<and> (\<forall>a. length (heap s) \<le> a \<longrightarrow> a < length (heap s') \<longrightarrow> subscribers (heap s' ! a) = [])
     \<and> ref_calls_only s s'"

text \<open>
  The node that \<^verbatim>\<open>qt.AddChild(d)\<close>, called in state \<open>s\<close>, has created by state \<open>s'\<close>: it
  is at the address \<open>length (heap s)\<close>, has the id of the descriptor, and \<open>qt\<close> is its parent.
\<close>

definition created :: "addr \<Rightarrow> RGQLQueryTreeNode \<Rightarrow> state \<Rightarrow> state \<Rightarrow> bool" where
  "created qt d s s' \<longleftrightarrow>
     length (heap s) < length (heap s')
     \<and> Id (heap s' ! length (heap s)) = data_Id d
     \<and> Parent (heap s' ! length (heap s)) = Some qt"

text \<open>How many references to variable \<open>i\<close> an argument map holds.\<close>

definition held :: "(string \<times> VariableReference) list \<Rightarrow> uint32 \<Rightarrow> nat" where
  "held argMap i = count_list (map (\<lambda>marg. ref_Id (snd marg)) argMap) i"

subsection \<open>A small schema and trees over it\<close>

text \<open>
  The schema of the examples: \<open>Query\<close> with the fields \<open>user: User\<close> and \<open>count: Int\<close>, and
  \<open>User\<close> with \<open>name: String\<close> and \<open>friend: User\<close>; \<open>Int\<close> and \<open>String\<close> are primitive.
\<close>

definition ex_userFields :: "FieldDefinition list" where
  "ex_userFields =
     [FieldDefinition ''name'' (Named ''String''), FieldDefinition ''friend'' (Named ''User'')]"

definition ex_resolver :: "ast_Type \<Rightarrow> TypeDefinition option" where
  "ex_resolver t =
     (if t = Named ''User'' then Some (ObjectDefinition ''User'' ex_userFields) else None)"

definition ex_isPrimitive :: "string \<Rightarrow> bool" where
  "ex_isPrimitive n \<longleftrightarrow> n = ''Int'' \<or> n = ''String''"

definition ex_tree :: state where
  "ex_tree =
     NewQueryTree ''Query''
       [FieldDefinition ''user'' (Named ''User''), FieldDefinition ''count'' (Named ''Int'')]
       ex_resolver ex_isPrimitive"

text \<open>The tree with one subscription on the root.\<close>

definition ex_tree_sub :: state where
  "ex_tree_sub = snd (SubscribeChanges 0 ex_tree)"

text \<open>The same, after a batch has stored the variables 1 and 2.\<close>

definition ex_tree_vars :: state where
  "ex_tree_vars =
     ex_tree_sub\<lparr>VariableStore :=
       fold Put [ASTVariable 1 ''x'', ASTVariable 2 ''y''] (VariableStore ex_tree_sub)\<rparr>"

text \<open>The root with the child 5 (\<open>user\<close>), at address 1.\<close>

definition ex_tree_user :: state where
  "ex_tree_user = snd (AddChild 0 (RGQLQueryTreeNode 5 ''user'' [] []) ex_tree)"

text \<open>The root with the child 8 (\<open>count\<close>, a primitive), at address 1.\<close>

definition ex_tree_count :: state where
  "ex_tree_count = snd (AddChild 0 (RGQLQueryTreeNode 8 ''count'' [] []) ex_tree_sub)"

text \<open>
  The root with the child 5 (\<open>user\<close>) at address 1, which has the children 6 (\<open>name\<close>)
  and 7 (\<open>friend\<close>) at the addresses 2 and 3.
\<close>

definition ex_two_children :: state where
  "ex_two_children =
     snd (AddChild 0
            (RGQLQueryTreeNode 5 ''user'' []
               [RGQLQueryTreeNode 6 ''name'' [] [], RGQLQueryTreeNode 7 ''friend'' [] []])
            ex_tree)"

text \<open>Descriptors used below.\<close>

definition ex_same_id :: RGQLQueryTreeNode where
  "ex_same_id = RGQLQueryTreeNode 5 ''friend'' [] []"

definition ex_nested_failure :: RGQLQueryTreeNode where
  "ex_nested_failure =
     RGQLQueryTreeNode 5 ''user'' [FieldArgument ''a'' 1]
       [RGQLQueryTreeNode 6 ''name'' [] [], RGQLQueryTreeNode 7 ''bogus'' [] []]"

definition ex_nested_root_id :: RGQLQueryTreeNode where
  "ex_nested_root_id =
     RGQLQueryTreeNode 5 ''user'' [] [RGQLQueryTreeNode 0 ''friend'' [] []]"

definition ex_repeated_name :: RGQLQueryTreeNode where
  "ex_repeated_name =
     RGQLQueryTreeNode 5 ''user''
       [FieldArgument ''a'' 1, FieldArgument ''a'' 2, FieldArgument ''b'' 3] []"

text \<open>Descriptors, operations and a batch for the instances of the theorems.\<close>

definition ex_invalid_nested :: RGQLQueryTreeNode where
  "ex_invalid_nested = RGQLQueryTreeNode 5 ''user'' [] [RGQLQueryTreeNode 7 ''bogus'' [] []]"

definition ex_user_with_name :: RGQLQueryTreeNode where
  "ex_user_with_name = RGQLQueryTreeNode 5 ''user'' [] [RGQLQueryTreeNode 6 ''name'' [] []]"

definition ex_op_absent :: NodeMutation where
  "ex_op_absent = NodeMutation 9 SUBTREE_DELETE None"

definition ex_op_invalid :: NodeMutation where
  "ex_op_invalid = NodeMutation 0 SUBTREE_ADD_CHILD (Some ex_invalid_nested)"

definition ex_op_count :: NodeMutation where
  "ex_op_count = NodeMutation 0 SUBTREE_ADD_CHILD (Some (RGQLQueryTreeNode 8 ''count'' [] []))"

definition ex_batch :: RGQLTreeMutation where
  "ex_batch =
     RGQLTreeMutation
       [NodeMutation 0 SUBTREE_ADD_CHILD (Some (RGQLQueryTreeNode 5 ''user'' [FieldArgument ''a'' 1] [])),
        NodeMutation 5 SUBTREE_DELETE None]
       [ASTVariable 1 ''x'']"

text \<open>A batch with one variable that deletes node 5.\<close>

definition ex_batch_delete :: RGQLTreeMutation where
  "ex_batch_delete =
     RGQLTreeMutation [NodeMutation 5 SUBTREE_DELETE None] [ASTVariable 1 ''x'']"

text \<open>A batch that deletes node 5 and then adds the child 8 (\<open>count\<close>) to the root.\<close>

definition ex_batch_delete_add :: RGQLTreeMutation where
  "ex_batch_delete_add = RGQLTreeMutation [NodeMutation 5 SUBTREE_DELETE None, ex_op_count] []"

section \<open>Properties\<close>

subsection \<open>Where the code departs from its specification\<close>

text \<open>
  C1 (an id already in the root index is refused under every parent, so ids stay unique).
  The duplicate test of line 88 reads \<^verbatim>\<open>qt.RootNodeMap\<close>, which only the root has; lines
  58, 172 and 178 read \<^verbatim>\<open>qt.Root.RootNodeMap\<close>. Under the parent at address 1, which is
  not the root, a descriptor with the id 5 is accepted although the index holds 5: the
  call returns no error, a second node with the id 5 is allocated and appended, and the
  entry of 5 in the index now leads to it.
\<close>

theorem C1_duplicate_id_accepted_below_root:
  "lookupNode 0 5 ex_tree_user = Inr (Some 1) \<and>
   fst (AddChild 1 ex_same_id ex_tree_user) = Done \<and>
   lookupNode 0 5 (snd (AddChild 1 ex_same_id ex_tree_user)) = Inr (Some 2) \<and>
   map Id (heap (snd (AddChild 1 ex_same_id ex_tree_user))) = [0, 5, 5] \<and>
   map (\<lambda>n. elems (Children n)) (heap (snd (AddChild 1 ex_same_id ex_tree_user)))
     = [[Some 1], [Some 2], []]"
  by code_simp

text \<open>
  C2 (a failed \<^verbatim>\<open>AddChild\<close> leaves the root index as it was and holds no reference).
  The descriptor 5 has the argument \<open>a\<close> bound to variable 1 and the children 6 (valid)
  and 7 (unknown field). The call fails with the error of child 7. The deferred function
  removes node 5 alone: the children of the root are as before, but the entry of 6,
  inserted by the nested call that succeeded, stays in the index, and the reference to
  variable 1 acquired for node 5 is still counted (the store has seen the \<^verbatim>\<open>Get\<close> and no
  \<^verbatim>\<open>Unsubscribe\<close>).
\<close>

theorem C2_rollback_keeps_nested_id_and_reference:
  "fst (AddChild 0 ex_nested_failure ex_tree_vars) = Failed UnknownField \<and>
   lookupNode 0 6 ex_tree_vars = Inr None \<and>
   lookupNode 0 6 (snd (AddChild 0 ex_nested_failure ex_tree_vars)) = Inr (Some 2) \<and>
   lookupNode 0 5 (snd (AddChild 0 ex_nested_failure ex_tree_vars)) = Inr None \<and>
   elems (Children (heap (snd (AddChild 0 ex_nested_failure ex_tree_vars)) ! 0))
     = elems (Children (heap ex_tree_vars ! 0)) \<and>
   refs (VariableStore ex_tree_vars) 1 = 0 \<and>
   refs (VariableStore (snd (AddChild 0 ex_nested_failure ex_tree_vars))) 1 = 1 \<and>
   calls (VariableStore (snd (AddChild 0 ex_nested_failure ex_tree_vars)))
     = calls (VariableStore ex_tree_vars) @ [CallGet 1]"
  by code_simp

text \<open>
  C3 (\<^verbatim>\<open>Dispose\<close> removes the whole subtree from the index, also with two or more
  children). Node 5, at address 1, has the children 6 and 7. Disposing child 6 makes
  \<^verbatim>\<open>removeChild\<close> move child 7 into slot 0 and clear slot 1 of the array that the loop of
  \<^verbatim>\<open>Dispose\<close> is reading; its second iteration reads nil and calls \<^verbatim>\<open>Dispose\<close> on it,
  which panics. Child 7 is never disposed, and the ids 5 and 7 are still in the index.
\<close>

theorem C3_dispose_two_children_panics:
  "map (\<lambda>n. elems (Children n)) (heap ex_two_children) = [[Some 1], [Some 2, Some 3], [], []] \<and>
   map_option fst (Dispose 3 (Some 1) ex_two_children) = Some Panic \<and>
   map_option (\<lambda>(r, s). (lookupNode 0 5 s, lookupNode 0 6 s, lookupNode 0 7 s))
       (Dispose 3 (Some 1) ex_two_children)
     = Some (Inr (Some 1), Inr None, Inr (Some 3))"
  by code_simp

text \<open>
  C4 (after any batch the root is in the index under id 0). The batch adds, under the
  root, node 5 with a nested child whose id is 0. The nested call runs on node 5, where the
  duplicate test finds nothing (see C1), and line 172 overwrites the entry of 0: after the
  batch the index leads from 0 to the new node at address 2, not to the root at address 0.
\<close>

theorem C4_batch_replaces_root_entry:
  "lookupNode 0 0 ex_tree = Inr (Some 0) \<and>
   map_option (\<lambda>(r, s). (r, lookupNode 0 0 s))
       (ApplyTreeMutation 1 0
          (RGQLTreeMutation [NodeMutation 0 SUBTREE_ADD_CHILD (Some ex_nested_root_id)] [])
          ex_tree)
     = Some (Done, Inr (Some 2))"
  by code_simp

text \<open>
  C6 (when a variable is missing, every reference acquired earlier in the call is
  released). The arguments are \<open>a\<close> bound to variable 1, \<open>a\<close> again bound to variable 2,
  and \<open>b\<close> bound to variable 3, which the store does not have. The second \<open>a\<close> replaces
  the first in \<open>argMap\<close>, so the clean-up loop releases the reference to variable 2 only:
  the call fails and creates no node, and the reference to variable 1 is still counted.
\<close>

theorem C6_repeated_name_leaks_reference:
  "fst (AddChild 0 ex_repeated_name ex_tree_vars) = Failed UnknownVariable \<and>
   length (heap (snd (AddChild 0 ex_repeated_name ex_tree_vars))) = length (heap ex_tree_vars) \<and>
   refs (VariableStore ex_tree_vars) 1 = 0 \<and>
   refs (VariableStore (snd (AddChild 0 ex_repeated_name ex_tree_vars))) 1 = 1 \<and>
   refs (VariableStore (snd (AddChild 0 ex_repeated_name ex_tree_vars))) 2 = 0 \<and>
   calls (VariableStore (snd (AddChild 0 ex_repeated_name ex_tree_vars)))
     = calls (VariableStore ex_tree_vars) @ [CallGet 1, CallGet 2, CallGet 3, CallUnsubscribe 2]"
  by code_simp

text \<open>
  C7 (every node operation of a batch is processed, in the order received). On the tree of
  C3 the batch deletes node 5, which has two children, and then adds the child 8 to the
  root. \<^verbatim>\<open>Dispose\<close> panics as in C3 and the panic ends \<^verbatim>\<open>ApplyTreeMutation\<close>: the second
  operation is never processed, and id 8 is not in the index. The second operation alone
  succeeds and enters id 8.
\<close>

theorem C7_panic_drops_rest_of_batch:
  "map_option (\<lambda>(r, s). (r, lookupNode 0 8 s))
       (ApplyTreeMutation 3 0 ex_batch_delete_add ex_two_children)
     = Some (Panic, Inr None) \<and>
   map_option (\<lambda>(r, s). (r, lookupNode 0 8 s))
       (ApplyTreeMutation 3 0 (RGQLTreeMutation [ex_op_count] []) ex_two_children)
     = Some (Done, Inr (Some 4))"
  by code_simp

text \<open>
  C8 (every batch stores its variables first and ends with exactly one sweep). On the tree
  of C3 the batch stores variable 1 and deletes node 5, which has two children.
  \<^verbatim>\<open>Dispose\<close> panics as in C3, the panic leaves \<^verbatim>\<open>ApplyTreeMutation\<close> before line 78, and
  the store has seen the \<^verbatim>\<open>Put\<close> and nothing else: there is no sweep in this call.
\<close>

theorem C8_panicking_batch_never_sweeps:
  "calls (VariableStore ex_two_children) = [] \<and>
   map_option (\<lambda>(r, s). (r, calls (VariableStore s)))
       (ApplyTreeMutation 3 0 ex_batch_delete ex_two_children)
     = Some (Panic, [CallPut (ASTVariable 1 ''x'')])"
  by code_simp

subsection \<open>The invariant of reachable states\<close>

text \<open>Every step of the operations keeps \<open>tree_ok\<close>.\<close>

lemma node_at_Some: "node_at s a = Some n \<longleftrightarrow> a < length (heap s) \<and> n = heap s ! a"
  by (auto simp: node_at_def)

lemma node_at_None: "node_at s a = None \<longleftrightarrow> \<not> a < length (heap s)"
  by (simp add: node_at_def)

lemma tree_ok_heap_eq: "heap s' = heap s \<Longrightarrow> tree_ok s' = tree_ok s"
  by (simp add: tree_ok_def)

lemma tree_ok_set_node: "tree_ok s \<Longrightarrow> node_ok a n \<Longrightarrow> tree_ok (set_node a n s)"
  by (cases "a < length (heap s)") (auto simp: tree_ok_def set_node_def nth_list_update)

lemma tree_ok_alloc:
  "tree_ok s \<Longrightarrow> node_ok (length (heap s)) n \<Longrightarrow> tree_ok (s\<lparr>heap := heap s @ [n]\<rparr>)"
  by (auto simp: tree_ok_def nth_append less_Suc_eq)

lemma tree_ok_nth: "tree_ok s \<Longrightarrow> a < length (heap s) \<Longrightarrow> node_ok a (heap s ! a)"
  by (simp add: tree_ok_def)

lemma node_ok_RootNodeMap:
  "node_ok a n \<Longrightarrow> RootNodeMap n = Some m \<Longrightarrow> node_ok a (n\<lparr>RootNodeMap := Some m'\<rparr>)"
  by (auto simp: node_ok_def)

lemma set_tl_subset: "x \<in> set (tl xs) \<Longrightarrow> x \<in> set xs"
  by (cases xs) auto

lemma node_ok_append:
  "node_ok a n \<Longrightarrow> AST n = Some td \<Longrightarrow> a < c \<Longrightarrow>
   node_ok a (n\<lparr>Children := append_slice (Children n) c\<rparr>)"
  by (auto simp: node_ok_def append_slice_def backing_def dest: set_tl_subset)

lemma node_ok_remove:
  "node_ok a n \<Longrightarrow>
   node_ok a (n\<lparr>Children := \<lparr>elems = remove1 x (elems (Children n)), spare = None # spare (Children n)\<rparr>\<rparr>)"
  by (auto simp: node_ok_def backing_def dest: notin_set_remove1)

lemma node_ok_nil: "node_ok a n \<Longrightarrow> node_ok a (n\<lparr>Children := nil_slice\<rparr>)"
  by (simp add: node_ok_def nil_slice_def backing_def)

lemma node_ok_Arguments: "node_ok a n \<Longrightarrow> node_ok a (n\<lparr>Arguments := x\<rparr>)"
  by (simp add: node_ok_def)

lemma node_ok_subscribers:
  "node_ok a n \<Longrightarrow> distinct x \<Longrightarrow> node_ok a (n\<lparr>subCtr := c, subscribers := x\<rparr>)"
  by (simp add: node_ok_def)

lemma node_ok_subscribers':
  "node_ok a n \<Longrightarrow> distinct x \<Longrightarrow> node_ok a (n\<lparr>subscribers := x\<rparr>)"
  by (simp add: node_ok_def)

lemma node_ok_distinct: "node_ok a n \<Longrightarrow> distinct (subscribers n)"
  by (simp add: node_ok_def)

lemma heap_nextUpdate [simp]: "heap (nextUpdate qt u s) = heap s"
  by (simp add: nextUpdate_def split: option.splits)

lemma tree_ok_nextUpdate [simp]: "tree_ok (nextUpdate qt u s) = tree_ok s"
  by (simp add: tree_ok_def)

lemma tree_ok_VariableStore [simp]: "tree_ok (s\<lparr>VariableStore := v\<rparr>) = tree_ok s"
  by (simp add: tree_ok_def)

lemma tree_ok_stdout [simp]: "tree_ok (s\<lparr>stdout := v\<rparr>) = tree_ok s"
  by (simp add: tree_ok_def)

lemma tree_ok_removeChild: "tree_ok s \<Longrightarrow> tree_ok (removeChild qt nod s)"
  by (auto simp: removeChild_def node_at_Some
      intro!: tree_ok_set_node node_ok_remove tree_ok_nth split: option.splits)

lemma tree_ok_rootMapDelete: "tree_ok s \<Longrightarrow> tree_ok (rootMapDelete qt i s)"
  by (auto simp: rootMapDelete_def node_at_Some
      intro!: tree_ok_set_node node_ok_RootNodeMap tree_ok_nth split: option.splits)

lemma tree_ok_rootMapInsert:
  "tree_ok s \<Longrightarrow> rootMapInsert qt i a s = (r, s') \<Longrightarrow> tree_ok s'"
  by (auto simp: rootMapInsert_def node_at_Some
      intro!: tree_ok_set_node node_ok_RootNodeMap tree_ok_nth split: option.splits)

lemma tree_ok_rollbackChild: "tree_ok s \<Longrightarrow> tree_ok (rollbackChild qt nn s)"
  by (simp add: rollbackChild_def tree_ok_removeChild tree_ok_rootMapDelete split: option.splits)

lemma tree_ok_clearChildren: "tree_ok s \<Longrightarrow> tree_ok (clearChildren a s)"
  by (auto simp: clearChildren_def node_at_Some
      intro!: tree_ok_set_node node_ok_nil tree_ok_nth split: option.splits)

lemma tree_ok_releaseArguments: "tree_ok s \<Longrightarrow> tree_ok (releaseArguments a s)"
  by (auto simp: releaseArguments_def node_at_Some
      intro!: tree_ok_set_node node_ok_Arguments tree_ok_nth split: option.splits)

lemma tree_ok_disposeSelf: "tree_ok s \<Longrightarrow> tree_ok (disposeSelf a s)"
  by (simp add: disposeSelf_def deleteFromIndex_def detachFromParent_def tree_ok_clearChildren
      tree_ok_rootMapDelete tree_ok_removeChild tree_ok_releaseArguments split: option.splits)

lemma tree_ok_appendChild:
  "tree_ok s \<Longrightarrow> qt < a \<Longrightarrow> AST (heap s ! qt) = Some td \<Longrightarrow> tree_ok (appendChild qt a s)"
  by (auto simp: appendChild_def node_at_Some
      intro!: tree_ok_set_node node_ok_append tree_ok_nth split: option.splits)

lemma tree_ok_insertChild:
  assumes "tree_ok s" "qt < length (heap s)" "AST (heap s ! qt) = Some td"
    "node_ok (length (heap s)) nnod" "insertChild qt nnod s = (r, s')"
  shows "tree_ok s'"
proof -
  have "tree_ok (s\<lparr>heap := heap s @ [nnod]\<rparr>)"
    using assms(1,4) by (rule tree_ok_alloc)
  then have "tree_ok (appendChild qt (length (heap s)) (s\<lparr>heap := heap s @ [nnod]\<rparr>))"
    using assms(2,3) by (intro tree_ok_appendChild[where td=td]) (simp_all add: nth_append)
  then show ?thesis
    using assms(5) unfolding insertChild_def by (rule tree_ok_rootMapInsert)
qed

text \<open>What \<open>validateChild\<close> returns.\<close>

lemma classifyField_Inr:
  "classifyField s fd = Inr (td, prim, pn) \<Longrightarrow> (prim \<longrightarrow> td = None)"
  by (auto simp: classifyField_def Let_def split: option.splits ast_Type.splits if_splits)

lemma validateChild_Inr:
  assumes "validateChild qt d s = Inr (nnod, s1)"
  shows "heap s1 = heap s" "qt < length (heap s)"
    "\<exists>td. AST (heap s ! qt) = Some td"
    "Children nnod = nil_slice" "RootNodeMap nnod = None" "subscribers nnod = []"
    "IsPrimitive nnod \<longrightarrow> AST nnod = None" "Id nnod = data_Id d"
    "delivered s1 = delivered s" "stdout s1 = stdout s"
    "SchemaResolver s1 = SchemaResolver s" "types_IsPrimitive s1 = types_IsPrimitive s"
  using assms
  by (auto simp: validateChild_def node_at_Some
      split: option.splits if_splits TypeDefinition.splits sum.splits prod.splits
      dest: classifyField_Inr)

lemma validateChild_Inl:
  assumes "validateChild qt d s = Inl (r, s1)"
  shows "heap s1 = heap s" "r \<noteq> Done"
    "delivered s1 = delivered s" "stdout s1 = stdout s"
    "SchemaResolver s1 = SchemaResolver s" "types_IsPrimitive s1 = types_IsPrimitive s"
  using assms
  by (auto simp: validateChild_def node_at_Some
      split: option.splits if_splits TypeDefinition.splits sum.splits prod.splits)

lemma node_ok_fresh:
  "Children n = nil_slice \<Longrightarrow> RootNodeMap n = None \<Longrightarrow> (IsPrimitive n \<longrightarrow> AST n = None) \<Longrightarrow>
   subscribers n = [] \<Longrightarrow> node_ok a n"
  by (simp add: node_ok_def nil_slice_def backing_def)

lemma tree_ok_AddChild_AddChildren:
  "(tree_ok s \<longrightarrow> tree_ok (snd (AddChild qt d s)))" 
  "(tree_ok s \<longrightarrow> tree_ok (snd (AddChildren nn ds s)))"
proof (induction qt d s and nn ds s rule: AddChild_AddChildren.induct)
  case (1 qt i f args children s)
  show ?case
  proof
    assume ok: "tree_ok s"
    show "tree_ok (snd (AddChild qt (RGQLQueryTreeNode i f args children) s))"
    proof (cases "validateChild qt (RGQLQueryTreeNode i f args children) s")
      case (Inl rs)
      then show ?thesis
        using ok validateChild_Inl(1)[of qt _ s "fst rs" "snd rs"]
        by (simp add: tree_ok_def)
    next
      case (Inr b)
      obtain nnod s1 where b: "b = (nnod, s1)" by (cases b)
      note v = validateChild_Inr[OF Inr[unfolded b]]
      obtain r2 s2 where ins: "insertChild qt nnod s1 = (r2, s2)" by (cases "insertChild qt nnod s1")
      have ok1: "tree_ok s1" using ok v(1) by (simp add: tree_ok_def)
      obtain td where td: "AST (heap s1 ! qt) = Some td" using v(1,3) by auto
      have ok2: "tree_ok s2"
        using ok1 _ td _ ins
        by (rule tree_ok_insertChild) (use v in \<open>auto intro: node_ok_fresh\<close>)
      show ?thesis
      proof (cases "r2 = Done")
        case False
        then show ?thesis using Inr b ins ok2 by (cases r2) simp_all
      next
        case True
        have ih: "tree_ok (snd (AddChildren (length (heap s1)) children s2))"
          using "1.IH"[OF Inr b[symmetric] ins[symmetric] True] ok2 by simp
        obtain r3 s3 where ch: "AddChildren (length (heap s1)) children s2 = (r3, s3)"
          by (cases "AddChildren (length (heap s1)) children s2")
        then show ?thesis
          using Inr b ins True ih by (cases r3) (simp_all add: tree_ok_rollbackChild)
      qed
    qed
  qed
next
  case (2 nnod s)
  then show ?case by simp
next
  case (3 nnod child rest s)
  show ?case
  proof
    assume ok: "tree_ok s"
    obtain r1 s1 where c: "AddChild nnod child s = (r1, s1)" by (cases "AddChild nnod child s")
    have ok1: "tree_ok s1" using "3.IH"(1) ok c by simp
    show "tree_ok (snd (AddChildren nnod (child # rest) s))"
    proof (cases "r1 = Done")
      case True
      then show ?thesis using "3.IH"(2)[OF c[symmetric] True] ok1 c by simp
    next
      case False
      then show ?thesis using c ok1 by (cases r1) simp_all
    qed
  qed
qed


lemma tree_ok_AddChild: "tree_ok s \<Longrightarrow> AddChild qt d s = (r, s') \<Longrightarrow> tree_ok s'"
  using tree_ok_AddChild_AddChildren(1)[of s qt d] by simp

lemma length_heap_set_node [simp]: "length (heap (set_node a n s)) = length (heap s)"
  by (simp add: set_node_def)

lemma length_heap_removeChild [simp]: "length (heap (removeChild qt nod s)) = length (heap s)"
  by (simp add: removeChild_def split: option.splits)

lemma length_heap_rootMapDelete [simp]: "length (heap (rootMapDelete qt i s)) = length (heap s)"
  by (simp add: rootMapDelete_def split: option.splits)

lemma length_heap_disposeSelf [simp]: "length (heap (disposeSelf a s)) = length (heap s)"
  by (simp add: disposeSelf_def releaseArguments_def detachFromParent_def deleteFromIndex_def
      clearChildren_def split: option.splits)

lemma tree_ok_Dispose_disposeChildren:
  "\<forall>r s'. Dispose fuel x s = Some (r, s') \<longrightarrow>
     length (heap s') = length (heap s) \<and> (tree_ok s \<longrightarrow> tree_ok s')"
  "\<forall>r s'. disposeChildren fuel a i k s = Some (r, s') \<longrightarrow>
     length (heap s') = length (heap s) \<and> (tree_ok s \<longrightarrow> tree_ok s')"
proof (induction fuel x s and fuel a i k s rule: Dispose_disposeChildren.induct)
  case (1 qt s)
  then show ?case by simp
next
  case (2 fuel s)
  then show ?case by simp
next
  case (3 fuel a s)
  show ?case
  proof (cases "node_at s a")
    case None
    then show ?thesis by simp
  next
    case (Some q)
    note ih = "3.IH"[OF Some]
    show ?thesis
    proof (intro allI impI)
      fix r s'
      assume d: "Dispose (Suc fuel) (Some a) s = Some (r, s')"
      then obtain r1 s1 where c: "disposeChildren fuel a 0 (length (elems (Children q)))
          (nextUpdate a (QTNodeUpdate Operation_Delete None) s) = Some (r1, s1)"
        using Some by (auto split: option.splits)
      have 1: "length (heap s1) = length (heap s)" "tree_ok s \<longrightarrow> tree_ok s1"
        using ih c by auto
      show "length (heap s') = length (heap s) \<and> (tree_ok s \<longrightarrow> tree_ok s')"
        using d Some c 1 by (cases r1) (auto simp: tree_ok_disposeSelf)
    qed
  qed
next
  case (4 fuel a i s)
  then show ?case by simp
next
  case (5 fuel a i k s)
  show ?case
  proof (intro allI impI)
    fix r s'
    assume d: "disposeChildren fuel a i (Suc k) s = Some (r, s')"
    then obtain r1 s1 where c: "Dispose fuel (child_slot a i s) s = Some (r1, s1)"
      by (auto split: option.splits)
    have 1: "length (heap s1) = length (heap s)" "tree_ok s \<longrightarrow> tree_ok s1"
      using "5.IH"(1) c by auto
    show "length (heap s') = length (heap s) \<and> (tree_ok s \<longrightarrow> tree_ok s')"
    proof (cases "r1 = Done")
      case True
      then show ?thesis using "5.IH"(2)[OF c refl True] d c 1 by simp
    next
      case False
      then show ?thesis using d c 1 by (cases r1) auto
    qed
  qed
qed

lemma tree_ok_Dispose: "tree_ok s \<Longrightarrow> Dispose fuel x s = Some (r, s') \<Longrightarrow> tree_ok s'"
  using tree_ok_Dispose_disposeChildren(1)[of fuel x s] by simp

lemma tree_ok_applyNodeMutation:
  "tree_ok s \<Longrightarrow> applyNodeMutation fuel qt aqn s = Some (r, s') \<Longrightarrow> tree_ok s'"
  by (auto simp: applyNodeMutation_def
      split: sum.splits option.splits SubtreeOperation.splits prod.splits result.splits if_splits
      dest: tree_ok_AddChild tree_ok_Dispose)

lemma tree_ok_applyNodeMutations:
  "tree_ok s \<Longrightarrow> applyNodeMutations fuel qt ops s = Some (r, s') \<Longrightarrow> tree_ok s'"
proof (induction ops arbitrary: s)
  case Nil
  then show ?case by simp
next
  case (Cons aqn rest)
  from Cons.prems(2) obtain r1 s1 where 1: "applyNodeMutation fuel qt aqn s = Some (r1, s1)"
    by (auto split: option.splits)
  have ok1: "tree_ok s1" using tree_ok_applyNodeMutation[OF Cons.prems(1) 1] .
  show ?case
  proof (cases "r1 = Done")
    case True
    then show ?thesis using Cons.IH[OF ok1] Cons.prems(2) 1 by simp
  next
    case False
    then show ?thesis using Cons.prems(2) 1 ok1 by (cases r1) auto
  qed
qed

lemma tree_ok_ApplyTreeMutation:
  "tree_ok s \<Longrightarrow> ApplyTreeMutation fuel qt m s = Some (r, s') \<Longrightarrow> tree_ok s'"
proof -
  assume ok: "tree_ok s" and a: "ApplyTreeMutation fuel qt m s = Some (r, s')"
  show ?thesis
  proof (cases "node_at s qt")
    case None
    then show ?thesis using ok a by (simp add: ApplyTreeMutation_def)
  next
    case (Some q)
    let ?s0 = "s\<lparr>VariableStore := fold Put (mut_Variables m) (VariableStore s)\<rparr>"
    from a Some obtain r1 s1 where 1: "applyNodeMutations fuel qt (mut_NodeMutation m) ?s0 = Some (r1, s1)"
      by (auto simp: ApplyTreeMutation_def split: option.splits)
    have "tree_ok s1" using tree_ok_applyNodeMutations[OF _ 1] ok by simp
    then show ?thesis using a Some 1 by (cases r1) (auto simp: ApplyTreeMutation_def)
  qed
qed

lemma tree_ok_New: "tree_ok (NewQueryTree n fs sr ip)"
  by (simp add: tree_ok_def NewQueryTree_def node_ok_def nil_slice_def backing_def)

lemma tree_ok_SubscribeChanges: "tree_ok s \<Longrightarrow> SubscribeChanges qt s = (i, s') \<Longrightarrow> tree_ok s'"
  by (auto simp: SubscribeChanges_def node_at_Some
      intro!: tree_ok_set_node node_ok_subscribers tree_ok_nth
      dest: tree_ok_nth[THEN node_ok_distinct] split: option.splits)

lemma tree_ok_removeSubscription: "tree_ok s \<Longrightarrow> tree_ok (removeSubscription qt i s)"
  by (auto simp: removeSubscription_def node_at_Some distinct_removeAll
      intro!: tree_ok_set_node node_ok_subscribers' tree_ok_nth
      dest: tree_ok_nth[THEN node_ok_distinct] split: option.splits)

lemma reachable_tree_ok: "reachable s \<Longrightarrow> tree_ok s"
  by (induction rule: reachable.induct)
    (auto intro: tree_ok_New tree_ok_AddChild tree_ok_Dispose tree_ok_ApplyTreeMutation
      tree_ok_SubscribeChanges tree_ok_removeSubscription)

text \<open>
  C5: in every reachable state, \<^verbatim>\<open>AddChild\<close> on a node classified as primitive fails with
  \<open>NotSelectable\<close>, whatever the descriptor, and leaves the state as it was; and the node
  has no children. The state being any reachable one, this holds for as long as the tree
  lives.
\<close>

theorem C5_primitive_node_rejects_children:
  assumes "reachable s" and "node_at s a = Some n" and "IsPrimitive n"
  shows "AddChild a d s = (Failed NotSelectable, s) \<and> elems (Children n) = []"
proof -
  have "node_ok a n"
    using reachable_tree_ok[OF assms(1)] assms(2) by (simp add: node_at_Some tree_ok_def)
  then have n: "AST n = None" "RootNodeMap n = None" "elems (Children n) = []"
    using assms(3) by (simp_all add: node_ok_def)
  have "validateChild a d s = Inl (Failed NotSelectable, s)"
    using assms(2) n by (simp add: validateChild_def)
  then show ?thesis using n by (cases d) simp
qed

lemma reachable_ex_tree_count: "reachable ex_tree_count"
  unfolding ex_tree_count_def ex_tree_sub_def ex_tree_def
  by (intro reach_AddChild[OF _ surjective_pairing] reach_Subscribe[OF _ surjective_pairing]
      reach_New)

theorem C5_primitive_node_witness:
  "reachable ex_tree_count \<and>
   node_at ex_tree_count 1 = Some (heap ex_tree_count ! 1) \<and>
   IsPrimitive (heap ex_tree_count ! 1) \<and>
   AddChild 1 (RGQLQueryTreeNode 9 ''digits'' [] []) ex_tree_count
     = (Failed NotSelectable, ex_tree_count) \<and>
   elems (Children (heap ex_tree_count ! 1)) = []"
proof -
  have 1: "node_at ex_tree_count 1 = Some (heap ex_tree_count ! 1)" by code_simp
  have 2: "IsPrimitive (heap ex_tree_count ! 1)" by code_simp
  show ?thesis
    using C5_primitive_node_rejects_children[OF reachable_ex_tree_count 1 2] 1 2
      reachable_ex_tree_count
    by blast
qed

subsection \<open>What AddChild changes and delivers\<close>

lemma ref_calls_only_refl: "calls (VariableStore s') = calls (VariableStore s) \<Longrightarrow> ref_calls_only s s'"
  by (simp add: ref_calls_only_def)

lemma ref_calls_only_trans:
  "ref_calls_only s s1 \<Longrightarrow> ref_calls_only s1 s2 \<Longrightarrow> ref_calls_only s s2"
  by (auto simp: ref_calls_only_def)

lemma frame_same_heap:
  "heap s' = heap s \<Longrightarrow> ref_calls_only s s' \<Longrightarrow> frame qt s s'"
  by (simp add: frame_def)

lemma frame_trans: "frame qt s s1 \<Longrightarrow> frame qt s1 s2 \<Longrightarrow> frame qt s s2"
  unfolding frame_def
  by (intro conjI allI impI) (auto intro: ref_calls_only_trans, (metis le_less_linear order.strict_trans2)+)


lemma calls_release:
  "calls (fold (\<lambda>marg. Unsubscribe (snd marg)) argMap vs)
     = calls vs @ map (\<lambda>marg. CallUnsubscribe (ref_Id (snd marg))) argMap"
  by (induction argMap arbitrary: vs) (simp_all add: Unsubscribe_def)

lemma calls_acquireArguments:
  "acquireArguments args argMap vs = (r, vs') \<Longrightarrow>
   \<exists>mid. calls vs' = calls vs @ mid \<and> list_all is_ref_call mid"
proof (induction args arbitrary: argMap vs)
  case Nil
  then show ?case by simp
next
  case (Cons arg args)
  show ?case
  proof (cases "bindings vs (arg_VariableId arg)")
    case None
    then show ?thesis
      using Cons.prems by (auto simp: Get_def calls_release list_all_iff)
  next
    case (Some v)
    let ?vs1 = "vs\<lparr>refs := (refs vs)(arg_VariableId arg := Suc (refs vs (arg_VariableId arg))),
                   calls := calls vs @ [CallGet (arg_VariableId arg)]\<rparr>"
    from Cons.prems Some have
      "acquireArguments args (AList.update (arg_Name arg) (VariableReference (arg_VariableId arg)) argMap) ?vs1 = (r, vs')"
      by (simp add: Get_def)
    from Cons.IH[OF this] show ?thesis by auto
  qed
qed

lemma validateChild_calls:
  "validateChild qt d s = Inl (r, s1) \<Longrightarrow> ref_calls_only s s1"
  "validateChild qt d s = Inr (nnod, s1) \<Longrightarrow> ref_calls_only s s1"
  by (auto simp: validateChild_def ref_calls_only_def
      split: option.splits if_splits TypeDefinition.splits sum.splits prod.splits
      dest: calls_acquireArguments)

lemma heap_set_node [simp]: "heap (set_node a n s) = (heap s)[a := n]"
  and delivered_set_node [simp]: "delivered (set_node a n s) = delivered s"
  and VariableStore_set_node [simp]: "VariableStore (set_node a n s) = VariableStore s"
  by (simp_all add: set_node_def)

lemma VariableStore_nextUpdate [simp]: "VariableStore (nextUpdate qt u s) = VariableStore s"
  and delivered_nextUpdate: "delivered (nextUpdate qt u s) = delivered s @ published qt u s"
  by (simp_all add: nextUpdate_def published_def split: option.splits)

lemma published_cong:
  "length (heap s') = length (heap s) \<Longrightarrow>
   subscribers (heap s' ! qt) = subscribers (heap s ! qt) \<Longrightarrow>
   published qt u s' = published qt u s"
  by (simp add: published_def node_at_def)

lemma published_cong':
  "qt < length (heap s) \<Longrightarrow> qt < length (heap s') \<Longrightarrow>
   subscribers (heap s' ! qt) = subscribers (heap s ! qt) \<Longrightarrow>
   published qt u s' = published qt u s"
  by (simp add: published_def node_at_def)

lemma published_no_subscribers:
  "subscribers (heap s ! qt) = [] \<Longrightarrow> published qt u s = []"
  by (simp add: published_def node_at_def)

text \<open>The steps of the deferred function and of \<^verbatim>\<open>Dispose\<close>, field by field.\<close>

lemma removeChild_facts:
  "length (heap (removeChild qt nod s)) = length (heap s)"
  "VariableStore (removeChild qt nod s) = VariableStore s"
  "subscribers (heap (removeChild qt nod s) ! a) = subscribers (heap s ! a)"
  "a \<noteq> qt \<Longrightarrow> heap (removeChild qt nod s) ! a = heap s ! a"
  "Root (heap (removeChild qt nod s) ! a) = Root (heap s ! a)"
  "Id (heap (removeChild qt nod s) ! a) = Id (heap s ! a)"
  "Parent (heap (removeChild qt nod s) ! a) = Parent (heap s ! a)"
  by (auto simp: removeChild_def node_at_Some nth_list_update split: option.splits)

lemma removeChild_delivered:
  "qt < length (heap s) \<Longrightarrow> Some nod \<in> set (elems (Children (heap s ! qt))) \<Longrightarrow>
   delivered (removeChild qt nod s)
     = delivered s @ published qt (QTNodeUpdate Operation_DelChild (Some nod)) s"
  by (simp add: removeChild_def node_at_def delivered_nextUpdate published_def)

lemma rootMapDelete_facts:
  "length (heap (rootMapDelete qt i s)) = length (heap s)"
  "VariableStore (rootMapDelete qt i s) = VariableStore s"
  "delivered (rootMapDelete qt i s) = delivered s"
  "subscribers (heap (rootMapDelete qt i s) ! a) = subscribers (heap s ! a)"
  "Children (heap (rootMapDelete qt i s) ! a) = Children (heap s ! a)"
  "Id (heap (rootMapDelete qt i s) ! a) = Id (heap s ! a)"
  "Parent (heap (rootMapDelete qt i s) ! a) = Parent (heap s ! a)"
  by (auto simp: rootMapDelete_def node_at_Some nth_list_update split: option.splits)

lemma rollbackChild_facts:
  "length (heap (rollbackChild qt nn s)) = length (heap s)"
  "VariableStore (rollbackChild qt nn s) = VariableStore s"
  "subscribers (heap (rollbackChild qt nn s) ! a) = subscribers (heap s ! a)"
  "Id (heap (rollbackChild qt nn s) ! a) = Id (heap s ! a)"
  "Parent (heap (rollbackChild qt nn s) ! a) = Parent (heap s ! a)"
  "a \<noteq> qt \<Longrightarrow> Children (heap (rollbackChild qt nn s) ! a) = Children (heap s ! a)"
  by (auto simp: rollbackChild_def rootMapDelete_facts removeChild_facts split: option.splits)

lemma rollbackChild_delivered:
  "qt < length (heap s) \<Longrightarrow> Some nn \<in> set (elems (Children (heap s ! qt))) \<Longrightarrow>
   delivered (rollbackChild qt nn s)
     = delivered s @ published qt (QTNodeUpdate Operation_DelChild (Some nn)) s"
  by (simp add: rollbackChild_def rootMapDelete_facts removeChild_delivered split: option.splits)

lemma frame_rollbackChild: "frame qt s (rollbackChild qt nn s)"
  by (simp add: frame_def rollbackChild_facts ref_calls_only_refl)

lemma frame_nextUpdate: "frame qt s (nextUpdate qt u s)"
  by (simp add: frame_def ref_calls_only_refl)

text \<open>The steps of the insertion, field by field.\<close>

lemma rootMapInsert_facts:
  assumes "rootMapInsert qt i a s = (r, s')"
  shows "length (heap s') = length (heap s)" "VariableStore s' = VariableStore s"
    "delivered s' = delivered s" "r = Done \<or> r = Panic"
    "subscribers (heap s' ! b) = subscribers (heap s ! b)"
    "Children (heap s' ! b) = Children (heap s ! b)"
    "Id (heap s' ! b) = Id (heap s ! b)"
    "Parent (heap s' ! b) = Parent (heap s ! b)"
  using assms
  by (auto simp: rootMapInsert_def node_at_Some nth_list_update split: option.splits)

lemma appendChild_facts:
  "length (heap (appendChild qt a s)) = length (heap s)"
  "VariableStore (appendChild qt a s) = VariableStore s"
  "delivered (appendChild qt a s) = delivered s"
  "subscribers (heap (appendChild qt a s) ! b) = subscribers (heap s ! b)"
  "Id (heap (appendChild qt a s) ! b) = Id (heap s ! b)"
  "Parent (heap (appendChild qt a s) ! b) = Parent (heap s ! b)"
  "b \<noteq> qt \<Longrightarrow> heap (appendChild qt a s) ! b = heap s ! b"
  "qt < length (heap s) \<Longrightarrow>
   Children (heap (appendChild qt a s) ! qt) = append_slice (Children (heap s ! qt)) a"
  by (auto simp: appendChild_def node_at_def nth_list_update split: option.splits)

lemma insertChild_facts:
  assumes "insertChild qt nnod s = (r, s')" and "qt < length (heap s)"
  shows "length (heap s') = Suc (length (heap s))" "VariableStore s' = VariableStore s"
    "delivered s' = delivered s" "r = Done \<or> r = Panic"
    "b < length (heap s) \<Longrightarrow> subscribers (heap s' ! b) = subscribers (heap s ! b)"
    "b < length (heap s) \<Longrightarrow> b \<noteq> qt \<Longrightarrow> Children (heap s' ! b) = Children (heap s ! b)"
    "subscribers (heap s' ! length (heap s)) = subscribers nnod"
    "Children (heap s' ! qt) = append_slice (Children (heap s ! qt)) (length (heap s))"
    "b < length (heap s) \<Longrightarrow> Id (heap s' ! b) = Id (heap s ! b)"
    "b < length (heap s) \<Longrightarrow> Parent (heap s' ! b) = Parent (heap s ! b)"
    "Id (heap s' ! length (heap s)) = Id nnod"
    "Parent (heap s' ! length (heap s)) = Parent nnod"
  using assms rootMapInsert_facts[OF assms(1)[unfolded insertChild_def]]
  by (simp_all add: appendChild_facts nth_append)

lemma frame_insertChild:
  "insertChild qt nnod s = (r, s') \<Longrightarrow> qt < length (heap s) \<Longrightarrow> subscribers nnod = [] \<Longrightarrow>
   frame qt s s'"
  unfolding frame_def
  by (intro conjI allI impI)
    (simp_all add: insertChild_facts ref_calls_only_refl less_Suc_eq_le antisym)


lemma frame_nested:
  "frame qt s s1 \<Longrightarrow> frame nn s1 s2 \<Longrightarrow> length (heap s) \<le> nn \<Longrightarrow> frame qt s s2"
  unfolding frame_def
  by (intro conjI allI impI) (auto intro: ref_calls_only_trans, (metis le_less_linear not_le)+)

lemma created_frame:
  "created qt d s s1 \<Longrightarrow> frame x s1 s2 \<Longrightarrow> created qt d s s2"
  by (auto simp: created_def frame_def)

lemma validateChild_Parent:
  "validateChild qt d s = Inr (nnod, s1) \<Longrightarrow> Parent nnod = Some qt"
  by (auto simp: validateChild_def
      split: option.splits if_splits TypeDefinition.splits sum.splits prod.splits)

lemma AddChild_deliveries_no_subscribers:
  "subscribers (heap s ! qt) = [] \<Longrightarrow> AddChild_deliveries qt d s r = []"
  by (simp add: AddChild_deliveries_def published_no_subscribers split: result.splits sum.splits)

lemma AddChild_frame_deliveries:
  "\<forall>r s'. AddChild qt d s = (r, s') \<longrightarrow>
     frame qt s s' \<and> delivered s' = delivered s @ AddChild_deliveries qt d s r
     \<and> (\<forall>b. validateChild qt d s = Inr b \<longrightarrow> created qt d s s')"
  "\<forall>r s'. AddChildren nn ds s = (r, s') \<longrightarrow>
     frame nn s s' \<and>
     (nn < length (heap s) \<longrightarrow> subscribers (heap s ! nn) = [] \<longrightarrow> delivered s' = delivered s)"
proof (induction qt d s and nn ds s rule: AddChild_AddChildren.induct)
  case (1 qt i f args children s)
  let ?d = "RGQLQueryTreeNode i f args children"
  show ?case
  proof (intro allI impI)
    fix r s'
    assume run: "AddChild qt ?d s = (r, s')"
    show "frame qt s s' \<and> delivered s' = delivered s @ AddChild_deliveries qt ?d s r
      \<and> (\<forall>b. validateChild qt ?d s = Inr b \<longrightarrow> created qt ?d s s')"
    proof (cases "validateChild qt ?d s")
      case (Inl rs)
      then have v: "validateChild qt ?d s = Inl (r, s')" using run by simp
      show ?thesis
        using validateChild_Inl[OF v] validateChild_calls(1)[OF v] v
        by (cases r) (simp_all add: frame_same_heap AddChild_deliveries_def)
    next
      case (Inr b)
      obtain nnod s1 where b: "b = (nnod, s1)" by (cases b)
      note v = validateChild_Inr[OF Inr[unfolded b]]
      have f01: "frame qt s s1"
        using v(1) validateChild_calls(2)[OF Inr[unfolded b]] by (rule frame_same_heap)
      obtain r2 s2 where ins: "insertChild qt nnod s1 = (r2, s2)"
        by (cases "insertChild qt nnod s1")
      have qt1: "qt < length (heap s1)" using v(1,2) by simp
      note i = insertChild_facts[OF ins qt1]
      have f12: "frame qt s1 s2" using ins qt1 v(6) by (rule frame_insertChild)
      have f02: "frame qt s s2" using f01 f12 by (rule frame_trans)
      have c2: "created qt ?d s s2"
        using i(1,11,12) v(1,8) validateChild_Parent[OF Inr[unfolded b]] by (simp add: created_def)
      have d2: "delivered s2 = delivered s" using i(3) v(9) by simp
      let ?nn = "length (heap s1)"
      show ?thesis
      proof (cases "r2 = Done")
        case False
        then have "r2 = Panic" using i(4) by simp
        then show ?thesis
          using run Inr b ins f02 d2 c2 by (simp add: AddChild_deliveries_def)
      next
        case True
        obtain r3 s3 where ch: "AddChildren ?nn children s2 = (r3, s3)"
          by (cases "AddChildren ?nn children s2")
        have ih: "frame ?nn s2 s3"
          "?nn < length (heap s2) \<longrightarrow> subscribers (heap s2 ! ?nn) = [] \<longrightarrow> delivered s3 = delivered s2"
          using "1.IH"[OF Inr b[symmetric] ins[symmetric] True] ch by auto
        have d3: "delivered s3 = delivered s" using ih(2) i(1,7) v(6) d2 by simp
        have f03: "frame qt s s3"
          using f02 ih(1) v(1) by (intro frame_nested[of qt s s2 ?nn s3]) simp_all
        have c3: "created qt ?d s s3" using c2 ih(1) by (rule created_frame)
        have qt2: "qt < length (heap s2)" "qt \<noteq> ?nn" using qt1 i(1) by simp_all
        have qt3: "qt < length (heap s3)" using qt2(1) ih(1) by (simp add: frame_def)
        have subs3: "subscribers (heap s3 ! qt) = subscribers (heap s ! qt)"
          using f03 v(2) by (simp add: frame_def)
        have ch3: "Children (heap s3 ! qt) = append_slice (Children (heap s1 ! qt)) ?nn"
          using ih(1) qt2 i(8) by (simp add: frame_def)
        have pub: "published qt u s3 = published qt u s" for u
          using v(2) qt3 subs3 by (simp add: published_def node_at_def)
        show ?thesis
        proof (cases r3)
          case Done
          then have "r = Done" "s' = nextUpdate qt (QTNodeUpdate Operation_AddChild (Some ?nn)) s3"
            using run Inr b ins True ch by simp_all
          then show ?thesis
            using f03 frame_nextUpdate[of qt s3] d3 pub v(1)
              created_frame[OF c3 frame_nextUpdate[of qt s3]]
            by (auto simp: AddChild_deliveries_def delivered_nextUpdate intro: frame_trans)
        next
          case (Failed e)
          then have r: "r = Failed e" "s' = rollbackChild qt ?nn s3"
            using run Inr b ins True ch by simp_all
          have "Some ?nn \<in> set (elems (Children (heap s3 ! qt)))"
            using ch3 by (simp add: append_slice_def)
          from rollbackChild_delivered[OF qt3 this] show ?thesis
            using r f03 frame_rollbackChild[of qt s3 ?nn] d3 pub v(1) Inr
              created_frame[OF c3 frame_rollbackChild[of qt s3 ?nn]]
            by (auto simp: AddChild_deliveries_def intro: frame_trans)
        next
          case Panic
          then have "r = Panic" "s' = s3" using run Inr b ins True ch by simp_all
          then show ?thesis using f03 d3 c3 by (simp add: AddChild_deliveries_def)
        qed
      qed
    qed
  qed
next
  case (2 nnod s)
  then show ?case by (simp add: frame_same_heap ref_calls_only_refl)
next
  case (3 nnod child rest s)
  show ?case
  proof (intro allI impI)
    fix r s'
    assume run: "AddChildren nnod (child # rest) s = (r, s')"
    obtain r1 s1 where c: "AddChild nnod child s = (r1, s1)" by (cases "AddChild nnod child s")
    have 1: "frame nnod s s1" "delivered s1 = delivered s @ AddChild_deliveries nnod child s r1"
      using "3.IH"(1) c by auto
    show "frame nnod s s' \<and>
      (nnod < length (heap s) \<longrightarrow> subscribers (heap s ! nnod) = [] \<longrightarrow> delivered s' = delivered s)"
    proof (cases "r1 = Done")
      case False
      then have "r = r1" "s' = s1" using run c by (cases r1; simp)+
      then show ?thesis using 1 by (simp add: AddChild_deliveries_no_subscribers)
    next
      case True
      have run2: "AddChildren nnod rest s1 = (r, s')" using run c True by simp
      have 2: "frame nnod s1 s'"
        "nnod < length (heap s1) \<longrightarrow> subscribers (heap s1 ! nnod) = [] \<longrightarrow> delivered s' = delivered s1"
        using "3.IH"(2)[OF c[symmetric] True] run2 by auto
      have "frame nnod s s'" using 1(1) 2(1) by (rule frame_trans)
      moreover have "delivered s' = delivered s"
        if "nnod < length (heap s)" "subscribers (heap s ! nnod) = []"
      proof -
        have "nnod < length (heap s1)" "subscribers (heap s1 ! nnod) = []"
          using 1(1) that by (auto simp: frame_def)
        then show ?thesis using 2(2) 1(2) that by (simp add: AddChild_deliveries_no_subscribers)
      qed
      ultimately show ?thesis by simp
    qed
  qed
qed


lemma AddChild_frame: "AddChild qt d s = (r, s') \<Longrightarrow> frame qt s s'"
  and AddChild_delivered:
    "AddChild qt d s = (r, s') \<Longrightarrow> delivered s' = delivered s @ AddChild_deliveries qt d s r"
  and AddChild_created:
    "AddChild qt d s = (r, s') \<Longrightarrow> validateChild qt d s = Inr b \<Longrightarrow> created qt d s s'"
  using AddChild_frame_deliveries(1)[of qt d s] by blast+

lemma AddChild_Done_validated:
  "AddChild qt d s = (Done, s') \<Longrightarrow> \<exists>b. validateChild qt d s = Inr b"
  by (cases d; cases "validateChild qt d s") (auto dest: validateChild_Inl(2))

subsection \<open>Delivered updates name allocated nodes\<close>

lemma events_ok_same:
  "length (heap s') = length (heap s) \<Longrightarrow> delivered s' = delivered s \<Longrightarrow>
   events_ok s' = events_ok s"
  by (simp add: events_ok_def)

lemma events_ok_grow:
  "events_ok s \<Longrightarrow> length (heap s) \<le> length (heap s') \<Longrightarrow>
   delivered s' = delivered s @ es \<Longrightarrow>
   (\<forall>e \<in> set es. \<forall>c. upd_Child (snd (snd e)) = Some c \<longrightarrow> c < length (heap s')) \<Longrightarrow>
   events_ok s'"
  unfolding events_ok_def by (auto simp: less_le_trans)

lemma events_ok_nextUpdate:
  "events_ok s \<Longrightarrow> (\<forall>c. upd_Child u = Some c \<longrightarrow> c < length (heap s)) \<Longrightarrow>
   events_ok (nextUpdate qt u s)"
  by (rule events_ok_grow[where es = "published qt u s"])
    (auto simp: delivered_nextUpdate published_def split: option.splits)

lemma events_ok_removeChild:
  "events_ok s \<Longrightarrow> nod < length (heap s) \<Longrightarrow> events_ok (removeChild qt nod s)"
proof (cases "node_at s qt")
  case None
  then show "events_ok s \<Longrightarrow> events_ok (removeChild qt nod s)" by (simp add: removeChild_def)
next
  case (Some q)
  assume ok: "events_ok s" and nod: "nod < length (heap s)"
  let ?s1 = "set_node qt (q\<lparr>Children := \<lparr>elems = remove1 (Some nod) (elems (Children q)),
                                            spare = None # spare (Children q)\<rparr>\<rparr>) s"
  have "events_ok ?s1" using ok by (simp add: events_ok_def)
  then have "events_ok (nextUpdate qt (QTNodeUpdate Operation_DelChild (Some nod)) ?s1)"
    using nod by (intro events_ok_nextUpdate) simp_all
  then show "events_ok (removeChild qt nod s)"
    using Some ok by (simp add: removeChild_def)
qed

lemma events_ok_rootMapDelete: "events_ok (rootMapDelete qt i s) = events_ok s"
  by (rule events_ok_same) (simp_all add: rootMapDelete_facts)

lemma events_ok_disposeSelf: "events_ok s \<Longrightarrow> events_ok (disposeSelf a s)"
proof -
  assume ok: "events_ok s"
  have 1: "events_ok (clearChildren a s)"
    using ok by (auto simp: clearChildren_def events_ok_def split: option.splits)
  have 2: "events_ok (deleteFromIndex a (clearChildren a s))"
    using 1 by (simp add: deleteFromIndex_def events_ok_rootMapDelete split: option.splits)
  have 3: "events_ok (detachFromParent a (deleteFromIndex a (clearChildren a s)))"
    using 2 by (auto simp: detachFromParent_def node_at_Some split: option.splits
        intro!: events_ok_removeChild)
  show ?thesis
    unfolding disposeSelf_def using 3
    by (auto simp: releaseArguments_def events_ok_def split: option.splits)
qed

lemma events_ok_AddChild:
  assumes "events_ok s" and "AddChild qt d s = (r, s')"
  shows "events_ok s'"
proof (rule events_ok_grow[OF assms(1) _ AddChild_delivered[OF assms(2)]])
  show "length (heap s) \<le> length (heap s')"
    using AddChild_frame[OF assms(2)] by (simp add: frame_def)
  show "\<forall>e\<in>set (AddChild_deliveries qt d s r).
       \<forall>c. upd_Child (snd (snd e)) = Some c \<longrightarrow> c < length (heap s')"
  proof (cases "validateChild qt d s")
    case (Inl a)
    then have "r \<noteq> Done" using assms(2) AddChild_Done_validated by fastforce
    then show ?thesis using Inl by (cases r) (simp_all add: AddChild_deliveries_def)
  next
    case (Inr b)
    from AddChild_created[OF assms(2) Inr] have "length (heap s) < length (heap s')"
      by (simp add: created_def)
    then show ?thesis
      by (auto simp: AddChild_deliveries_def published_def split: result.splits sum.splits option.splits)
  qed
qed

subsection \<open>The store calls of Dispose\<close>

lemma ref_calls_only_disposeSelf: "ref_calls_only s (disposeSelf a s)"
proof -
  let ?s3 = "detachFromParent a (deleteFromIndex a (clearChildren a s))"
  have "VariableStore ?s3 = VariableStore s"
    by (simp add: detachFromParent_def deleteFromIndex_def clearChildren_def
        rootMapDelete_facts removeChild_facts split: option.splits)
  then show ?thesis
    unfolding disposeSelf_def
    by (auto simp: ref_calls_only_def releaseArguments_def calls_release list_all_iff
        split: option.splits)
qed

lemma Dispose_events_calls:
  "\<forall>r s'. Dispose fuel x s = Some (r, s') \<longrightarrow>
     (events_ok s \<longrightarrow> events_ok s') \<and> ref_calls_only s s'"
  "\<forall>r s'. disposeChildren fuel a i k s = Some (r, s') \<longrightarrow>
     (events_ok s \<longrightarrow> events_ok s') \<and> ref_calls_only s s'"
proof (induction fuel x s and fuel a i k s rule: Dispose_disposeChildren.induct)
  case (1 qt s)
  then show ?case by simp
next
  case (2 fuel s)
  then show ?case by (simp add: ref_calls_only_refl)
next
  case (3 fuel a s)
  show ?case
  proof (cases "node_at s a")
    case None
    then show ?thesis by (simp add: ref_calls_only_refl)
  next
    case (Some q)
    let ?s0 = "nextUpdate a (QTNodeUpdate Operation_Delete None) s"
    note ih = "3.IH"[OF Some]
    have e0: "events_ok s \<longrightarrow> events_ok ?s0" by (simp add: events_ok_nextUpdate)
    have c0: "ref_calls_only s ?s0" by (simp add: ref_calls_only_refl)
    show ?thesis
    proof (intro allI impI)
      fix r s'
      assume d: "Dispose (Suc fuel) (Some a) s = Some (r, s')"
      then obtain r1 s1 where c: "disposeChildren fuel a 0 (length (elems (Children q))) ?s0
          = Some (r1, s1)"
        using Some by (auto split: option.splits)
      have 1: "events_ok ?s0 \<longrightarrow> events_ok s1" "ref_calls_only ?s0 s1"
        using ih c by auto
      show "(events_ok s \<longrightarrow> events_ok s') \<and> ref_calls_only s s'"
        using d Some c 1 e0 c0 ref_calls_only_disposeSelf[of s1 a]
        by (cases r1) (auto simp: events_ok_disposeSelf intro: ref_calls_only_trans)
    qed
  qed
next
  case (4 fuel a i s)
  then show ?case by (simp add: ref_calls_only_refl)
next
  case (5 fuel a i k s)
  show ?case
  proof (intro allI impI)
    fix r s'
    assume d: "disposeChildren fuel a i (Suc k) s = Some (r, s')"
    then obtain r1 s1 where c: "Dispose fuel (child_slot a i s) s = Some (r1, s1)"
      by (auto split: option.splits)
    have 1: "events_ok s \<longrightarrow> events_ok s1" "ref_calls_only s s1"
      using "5.IH"(1) c by auto
    show "(events_ok s \<longrightarrow> events_ok s') \<and> ref_calls_only s s'"
    proof (cases "r1 = Done")
      case True
      then show ?thesis
        using "5.IH"(2)[OF c refl True] d c 1 by (auto intro: ref_calls_only_trans)
    next
      case False
      then show ?thesis using d c 1 by (cases r1) auto
    qed
  qed
qed

subsection \<open>Batches: deliveries and store calls\<close>

lemma events_ok_stdout [simp]: "events_ok (s\<lparr>stdout := x\<rparr>) = events_ok s"
  and events_ok_VariableStore [simp]: "events_ok (s\<lparr>VariableStore := v\<rparr>) = events_ok s"
  by (simp_all add: events_ok_def)

lemma ref_calls_only_stdout [simp]: "ref_calls_only s (s'\<lparr>stdout := x\<rparr>) = ref_calls_only s s'"
  by (simp add: ref_calls_only_def)

lemma AddChild_ref_calls_only: "AddChild qt d s = (r, s') \<Longrightarrow> ref_calls_only s s'"
  using AddChild_frame[of qt d s r s'] by (simp add: frame_def)

lemma applyNodeMutation_keeps:
  assumes "applyNodeMutation fuel qt aqn s = Some (r, s')"
  shows "(events_ok s \<longrightarrow> events_ok s') \<and> ref_calls_only s s'"
proof (cases "lookupNode qt (aqn_NodeId aqn) s")
  case (Inl u)
  then show ?thesis using assms by (simp add: applyNodeMutation_def ref_calls_only_refl)
next
  case (Inr found)
  show ?thesis
  proof (cases found)
    case None
    then show ?thesis using assms Inr by (simp add: applyNodeMutation_def ref_calls_only_refl)
  next
    case (Some nod)
    show ?thesis
    proof (cases "aqn_Operation aqn")
      case SUBTREE_ADD_CHILD
      show ?thesis
      proof (cases "aqn_Node aqn")
        case None
        then show ?thesis
          using assms Inr Some SUBTREE_ADD_CHILD by (simp add: applyNodeMutation_def ref_calls_only_refl)
      next
        case (Some data)
        obtain r1 s1 where a: "AddChild nod data s = (r1, s1)" by (cases "AddChild nod data s")
        show ?thesis
          using assms Inr \<open>found = Some nod\<close> SUBTREE_ADD_CHILD Some a
            events_ok_AddChild[OF _ a] AddChild_ref_calls_only[OF a]
          by (cases r1) (auto simp: applyNodeMutation_def)
      qed
    next
      case SUBTREE_DELETE
      then show ?thesis
        using assms Inr Some Dispose_events_calls(1)[of fuel "Some nod" s]
        by (auto simp: applyNodeMutation_def ref_calls_only_refl split: if_splits)
    next
      case (SUBTREE_OTHER x)
      then show ?thesis using assms Inr Some by (simp add: applyNodeMutation_def ref_calls_only_refl)
    qed
  qed
qed

lemma applyNodeMutations_keeps:
  "applyNodeMutations fuel qt ops s = Some (r, s') \<Longrightarrow>
   (events_ok s \<longrightarrow> events_ok s') \<and> ref_calls_only s s'"
proof (induction ops arbitrary: s)
  case Nil
  then show ?case by (simp add: ref_calls_only_refl)
next
  case (Cons aqn rest)
  from Cons.prems obtain r1 s1 where 1: "applyNodeMutation fuel qt aqn s = Some (r1, s1)"
    by (auto split: option.splits)
  note k = applyNodeMutation_keeps[OF 1]
  show ?case
  proof (cases "r1 = Done")
    case True
    then show ?thesis using Cons.IH[of s1] Cons.prems 1 k by (auto intro: ref_calls_only_trans)
  next
    case False
    then show ?thesis using Cons.prems 1 k by (cases r1) auto
  qed
qed

lemma calls_fold_Put: "calls (fold Put vars vs) = calls vs @ map CallPut vars"
  by (induction vars arbitrary: vs) (simp_all add: Put_def)

lemma ApplyTreeMutation_calls:
  assumes "node_at s qt = Some q" and "ApplyTreeMutation fuel qt m s = Some (r, s')"
  shows "\<exists>mid. list_all is_ref_call mid \<and>
     calls (VariableStore s')
       = calls (VariableStore s) @ map CallPut (mut_Variables m) @ mid
           @ (if r = Done then [CallGarbageCollect] else [])"
proof -
  let ?s0 = "s\<lparr>VariableStore := fold Put (mut_Variables m) (VariableStore s)\<rparr>"
  from assms obtain r1 s1 where 1: "applyNodeMutations fuel qt (mut_NodeMutation m) ?s0 = Some (r1, s1)"
    by (auto simp: ApplyTreeMutation_def split: option.splits)
  from applyNodeMutations_keeps[OF 1] obtain mid where
    mid: "list_all is_ref_call mid" "calls (VariableStore s1) = calls (VariableStore ?s0) @ mid"
    by (auto simp: ref_calls_only_def)
  have "calls (VariableStore s')
       = calls (VariableStore s) @ map CallPut (mut_Variables m) @ mid
           @ (if r = Done then [CallGarbageCollect] else [])"
    using assms 1 mid(2) by (cases r1) (auto simp: ApplyTreeMutation_def calls_fold_Put GarbageCollect_def)
  then show ?thesis using mid(1) by blast
qed

lemma events_ok_ApplyTreeMutation:
  assumes "events_ok s" and "ApplyTreeMutation fuel qt m s = Some (r, s')"
  shows "events_ok s'"
proof (cases "node_at s qt")
  case None
  then show ?thesis using assms by (simp add: ApplyTreeMutation_def)
next
  case (Some q)
  let ?s0 = "s\<lparr>VariableStore := fold Put (mut_Variables m) (VariableStore s)\<rparr>"
  from assms Some obtain r1 s1 where 1: "applyNodeMutations fuel qt (mut_NodeMutation m) ?s0 = Some (r1, s1)"
    by (auto simp: ApplyTreeMutation_def split: option.splits)
  have "events_ok s1" using applyNodeMutations_keeps[OF 1] assms(1) by simp
  then show ?thesis using assms(2) Some 1 by (cases r1) (auto simp: ApplyTreeMutation_def)
qed

lemma events_ok_New: "events_ok (NewQueryTree n fs sr ip)"
  by (simp add: events_ok_def NewQueryTree_def)

lemma events_ok_SubscribeChanges: "events_ok s \<Longrightarrow> SubscribeChanges qt s = (i, s') \<Longrightarrow> events_ok s'"
  by (auto simp: SubscribeChanges_def events_ok_def split: option.splits)

lemma events_ok_removeSubscription: "events_ok s \<Longrightarrow> events_ok (removeSubscription qt i s)"
  by (auto simp: removeSubscription_def events_ok_def split: option.splits)

lemma reachable_events_ok: "reachable s \<Longrightarrow> events_ok s"
proof (induction rule: reachable.induct)
  case (reach_Dispose s fuel a r s')
  then show ?case using Dispose_events_calls(1)[of fuel "Some a" s] by simp
qed (auto intro: events_ok_New events_ok_AddChild events_ok_ApplyTreeMutation
      events_ok_SubscribeChanges events_ok_removeSubscription)

text \<open>
  C9: a call of \<^verbatim>\<open>AddChild\<close> that succeeds delivers one update to each subscription of
  the parent \<open>qt\<close> (no subscription is listed twice), an \<open>AddChild\<close> update naming the new
  node, which carries the descriptor's id and has \<open>qt\<close> as parent; it delivers nothing
  else, to no subscription of any other node.
\<close>

theorem C9_success_publishes_one_AddChild:
  assumes "reachable s" and "AddChild qt data s = (Done, s')"
  shows "qt < length (heap s) \<and> distinct (subscribers (heap s ! qt)) \<and>
     length (heap s) < length (heap s') \<and>
     Id (heap s' ! length (heap s)) = data_Id data \<and>
     Parent (heap s' ! length (heap s)) = Some qt \<and>
     delivered s' = delivered s @
       map (\<lambda>sub. (qt, sub, QTNodeUpdate Operation_AddChild (Some (length (heap s)))))
         (subscribers (heap s ! qt))"
proof -
  from AddChild_Done_validated[OF assms(2)] obtain nnod s1 where
    v: "validateChild qt data s = Inr (nnod, s1)" by force
  have qt: "qt < length (heap s)" using validateChild_Inr(2)[OF v] .
  have "distinct (subscribers (heap s ! qt))"
    using reachable_tree_ok[OF assms(1)] qt by (simp add: tree_ok_def node_ok_def)
  moreover have "created qt data s s'" using AddChild_created[OF assms(2) v] .
  moreover have "delivered s' = delivered s @
       map (\<lambda>sub. (qt, sub, QTNodeUpdate Operation_AddChild (Some (length (heap s)))))
         (subscribers (heap s ! qt))"
    using AddChild_delivered[OF assms(2)] qt
    by (simp add: AddChild_deliveries_def published_def node_at_def)
  ultimately show ?thesis using qt by (simp add: created_def)
qed

text \<open>
  C10: a call of \<^verbatim>\<open>AddChild\<close> that passes its checks, creates its node, and then fails
  on a nested descriptor delivers one \<open>DelChild\<close> update naming that node to each
  subscription of the parent, and nothing else; no \<open>AddChild\<close> update naming the node was
  delivered, in this call or before.
\<close>

theorem C10_rollback_publishes_DelChild_only:
  assumes "reachable s" and "validateChild qt data s = Inr (nnod, s1)"
    and "AddChild qt data s = (Failed err, s')"
  shows "delivered s' = delivered s @
       map (\<lambda>sub. (qt, sub, QTNodeUpdate Operation_DelChild (Some (length (heap s)))))
         (subscribers (heap s ! qt)) \<and>
     (\<forall>e \<in> set (delivered s').
        snd (snd e) \<noteq> QTNodeUpdate Operation_AddChild (Some (length (heap s))))"
proof -
  have qt: "qt < length (heap s)" using validateChild_Inr(2)[OF assms(2)] .
  have d: "delivered s' = delivered s @
       map (\<lambda>sub. (qt, sub, QTNodeUpdate Operation_DelChild (Some (length (heap s)))))
         (subscribers (heap s ! qt))"
    using AddChild_delivered[OF assms(3)] qt assms(2)
    by (simp add: AddChild_deliveries_def published_def node_at_def)
  have "snd (snd e) \<noteq> QTNodeUpdate Operation_AddChild (Some (length (heap s)))"
    if "e \<in> set (delivered s)" for e
    using reachable_events_ok[OF assms(1)] that by (auto simp: events_ok_def)
  then show ?thesis using d by auto
qed

subsection \<open>Fuel\<close>

lemma Dispose_fuel_mono:
  "\<forall>f' y. Dispose fuel x s = Some y \<longrightarrow> fuel \<le> f' \<longrightarrow> Dispose f' x s = Some y"
  "\<forall>f' y. disposeChildren fuel a i k s = Some y \<longrightarrow> fuel \<le> f' \<longrightarrow> disposeChildren f' a i k s = Some y"
proof (induction fuel x s and fuel a i k s rule: Dispose_disposeChildren.induct)
  case (1 qt s)
  then show ?case by simp
next
  case (2 fuel s)
  show ?case
  proof (intro allI impI)
    fix f' y assume "Dispose (Suc fuel) None s = Some y" "Suc fuel \<le> f'"
    then show "Dispose f' None s = Some y" by (cases f') simp_all
  qed
next
  case (3 fuel a s)
  show ?case
  proof (intro allI impI)
    fix f' y assume d: "Dispose (Suc fuel) (Some a) s = Some y" and le: "Suc fuel \<le> f'"
    then obtain g where g: "f' = Suc g" "fuel \<le> g" by (cases f') simp_all
    show "Dispose f' (Some a) s = Some y"
    proof (cases "node_at s a")
      case None
      then show ?thesis using d g by simp
    next
      case (Some q)
      let ?s0 = "nextUpdate a (QTNodeUpdate Operation_Delete None) s"
      from d Some obtain z where z: "disposeChildren fuel a 0 (length (elems (Children q))) ?s0 = Some z"
        by (auto split: option.splits)
      have "disposeChildren g a 0 (length (elems (Children q))) ?s0 = Some z"
        using "3.IH"[OF Some] z g(2) by blast
      then show ?thesis using d Some z g by simp
    qed
  qed
next
  case (4 fuel a i s)
  then show ?case by simp
next
  case (5 fuel a i k s)
  show ?case
  proof (intro allI impI)
    fix f' y assume d: "disposeChildren fuel a i (Suc k) s = Some y" and le: "fuel \<le> f'"
    then obtain r1 s1 where c: "Dispose fuel (child_slot a i s) s = Some (r1, s1)"
      by (auto split: option.splits)
    have c': "Dispose f' (child_slot a i s) s = Some (r1, s1)"
      using "5.IH"(1) c le by blast
    show "disposeChildren f' a i (Suc k) s = Some y"
    proof (cases "r1 = Done")
      case True
      then have "disposeChildren fuel a (Suc i) k s1 = Some y" using d c by simp
      then have "disposeChildren f' a (Suc i) k s1 = Some y"
        using "5.IH"(2)[OF c refl True] le by blast
      then show ?thesis using c' True by simp
    next
      case False
      then show ?thesis using d c c' by (cases r1) auto
    qed
  qed
qed

lemma child_slot_later:
  "tree_ok s \<Longrightarrow> a < length (heap s) \<Longrightarrow> child_slot a i s = Some c \<Longrightarrow> a < c"
proof -
  assume ok: "tree_ok s" and a: "a < length (heap s)" and c: "child_slot a i s = Some c"
  from c a have "Some c \<in> set (backing (Children (heap s ! a)))"
    by (auto simp: child_slot_def node_at_def split: if_splits dest: nth_mem)
  then show ?thesis using ok a by (simp add: tree_ok_def node_ok_def)
qed

lemma Dispose_returns:
  "tree_ok s \<longrightarrow> (case x of None \<Rightarrow> 0 | Some a \<Rightarrow> length (heap s) - a) < fuel \<longrightarrow>
     Dispose fuel x s \<noteq> None"
  "tree_ok s \<longrightarrow> a < length (heap s) \<longrightarrow> length (heap s) - a \<le> fuel \<longrightarrow>
     disposeChildren fuel a i k s \<noteq> None"
proof (induction fuel x s and fuel a i k s rule: Dispose_disposeChildren.induct)
  case (1 qt s)
  then show ?case by simp
next
  case (2 fuel s)
  then show ?case by simp
next
  case (3 fuel a s)
  show ?case
  proof (intro impI)
    assume ok: "tree_ok s" and f: "(case Some a of None \<Rightarrow> 0 | Some a \<Rightarrow> length (heap s) - a) < Suc fuel"
    show "Dispose (Suc fuel) (Some a) s \<noteq> None"
    proof (cases "node_at s a")
      case None
      then show ?thesis by simp
    next
      case (Some q)
      then have a: "a < length (heap s)" by (simp add: node_at_Some)
      have "disposeChildren fuel a 0 (length (elems (Children q)))
              (nextUpdate a (QTNodeUpdate Operation_Delete None) s) \<noteq> None"
        using "3.IH"[OF Some] ok a f by simp
      then show ?thesis using Some by (auto split: option.splits result.splits)
    qed
  qed
next
  case (4 fuel a i s)
  then show ?case by simp
next
  case (5 fuel a i k s)
  show ?case
  proof (intro impI)
    assume ok: "tree_ok s" and a: "a < length (heap s)" and f: "length (heap s) - a \<le> fuel"
    have "(case child_slot a i s of None \<Rightarrow> 0 | Some c \<Rightarrow> length (heap s) - c) < fuel"
    proof (cases "child_slot a i s")
      case None
      then show ?thesis using a f by simp
    next
      case (Some c)
      then have "a < c" using child_slot_later[OF ok a] by simp
      then show ?thesis using Some a f by simp
    qed
    then obtain r1 s1 where c: "Dispose fuel (child_slot a i s) s = Some (r1, s1)"
      using "5.IH"(1) ok by auto
    have k: "length (heap s1) = length (heap s)" "tree_ok s1"
      using tree_ok_Dispose_disposeChildren(1)[of fuel "child_slot a i s" s] c ok by auto
    show "disposeChildren fuel a i (Suc k) s \<noteq> None"
    proof (cases "r1 = Done")
      case True
      then show ?thesis using "5.IH"(2)[OF c refl True] k a f c by simp
    next
      case False
      then show ?thesis using c by (cases r1) auto
    qed
  qed
qed

lemma applyNodeMutation_fuel_mono:
  assumes "applyNodeMutation fuel qt aqn s = Some y" and "fuel \<le> f'"
  shows "applyNodeMutation f' qt aqn s = Some y"
proof (cases "\<exists>nod. lookupNode qt (aqn_NodeId aqn) s = Inr (Some nod) \<and>
    aqn_Operation aqn = SUBTREE_DELETE \<and> aqn_NodeId aqn \<noteq> 0 \<and> Some nod \<noteq> Root (heap s ! qt)")
  case True
  then obtain nod where n: "lookupNode qt (aqn_NodeId aqn) s = Inr (Some nod)"
    "aqn_Operation aqn = SUBTREE_DELETE" "aqn_NodeId aqn \<noteq> 0" "Some nod \<noteq> Root (heap s ! qt)"
    by blast
  then have "Dispose fuel (Some nod) s = Some y" using assms(1) by (simp add: applyNodeMutation_def)
  then have "Dispose f' (Some nod) s = Some y" using Dispose_fuel_mono(1) assms(2) by blast
  then show ?thesis using n by (simp add: applyNodeMutation_def)
next
  case False
  then have "applyNodeMutation f' qt aqn s = applyNodeMutation fuel qt aqn s"
    by (auto simp: applyNodeMutation_def split: sum.splits option.splits SubtreeOperation.splits)
  then show ?thesis using assms(1) by simp
qed

lemma applyNodeMutations_fuel_mono:
  "applyNodeMutations fuel qt ops s = Some y \<Longrightarrow> fuel \<le> f' \<Longrightarrow>
   applyNodeMutations f' qt ops s = Some y"
proof (induction ops arbitrary: s)
  case Nil
  then show ?case by simp
next
  case (Cons aqn rest)
  from Cons.prems(1) obtain r1 s1 where 1: "applyNodeMutation fuel qt aqn s = Some (r1, s1)"
    by (auto split: option.splits)
  have 2: "applyNodeMutation f' qt aqn s = Some (r1, s1)"
    using applyNodeMutation_fuel_mono[OF 1 Cons.prems(2)] .
  show ?case
  proof (cases "r1 = Done")
    case True
    then show ?thesis using Cons.IH[of s1] Cons.prems 1 2 by simp
  next
    case False
    then show ?thesis using Cons.prems 1 2 by (cases r1) auto
  qed
qed

lemma applyNodeMutation_returns:
  "tree_ok s \<Longrightarrow> length (heap s) < fuel \<Longrightarrow> applyNodeMutation fuel qt aqn s \<noteq> None"
  using Dispose_returns(1)[of s "Some nod" fuel for nod]
  by (auto simp: applyNodeMutation_def
      split: sum.splits option.splits SubtreeOperation.splits prod.splits result.splits)

lemma applyNodeMutations_returns:
  "tree_ok s \<Longrightarrow> \<exists>fuel y. applyNodeMutations fuel qt ops s = Some y"
proof (induction ops arbitrary: s)
  case Nil
  then show ?case by simp
next
  case (Cons aqn rest)
  let ?f1 = "Suc (length (heap s))"
  obtain r1 s1 where 1: "applyNodeMutation ?f1 qt aqn s = Some (r1, s1)"
    using applyNodeMutation_returns[OF Cons.prems, of ?f1 qt aqn] by auto
  show ?case
  proof (cases "r1 = Done")
    case False
    then have "applyNodeMutations ?f1 qt (aqn # rest) s = Some (r1, s1)"
      using 1 by (cases r1) auto
    then show ?thesis by blast
  next
    case True
    have "tree_ok s1" using tree_ok_applyNodeMutation[OF Cons.prems 1] .
    from Cons.IH[OF this] obtain f2 y where 2: "applyNodeMutations f2 qt rest s1 = Some y" by blast
    have "applyNodeMutation (max ?f1 f2) qt aqn s = Some (r1, s1)"
      using applyNodeMutation_fuel_mono[OF 1] by simp
    moreover have "applyNodeMutations (max ?f1 f2) qt rest s1 = Some y"
      using applyNodeMutations_fuel_mono[OF 2] by simp
    ultimately have "applyNodeMutations (max ?f1 f2) qt (aqn # rest) s = Some y"
      using True by simp
    then show ?thesis by blast
  qed
qed

lemma ApplyTreeMutation_returns:
  assumes "tree_ok s"
  shows "\<exists>fuel r s'. ApplyTreeMutation fuel qt m s = Some (r, s')"
proof (cases "node_at s qt")
  case None
  then show ?thesis by (simp add: ApplyTreeMutation_def)
next
  case (Some q)
  let ?s0 = "s\<lparr>VariableStore := fold Put (mut_Variables m) (VariableStore s)\<rparr>"
  have "tree_ok ?s0" using assms by simp
  from applyNodeMutations_returns[OF this] obtain fuel r1 s1 where
    "applyNodeMutations fuel qt (mut_NodeMutation m) ?s0 = Some (r1, s1)" by fastforce
  then have "\<exists>r s'. ApplyTreeMutation fuel qt m s = Some (r, s')"
    using Some by (cases r1) (simp_all add: ApplyTreeMutation_def)
  then show ?thesis by blast
qed

text \<open>
  The store calls of a batch. On a reachable tree \<^verbatim>\<open>ApplyTreeMutation\<close> returns for every
  batch, given enough fuel; and whenever it returns, the calls it made on the variable
  store are: one \<^verbatim>\<open>Put\<close> for each variable of the batch, in order, before anything else;
  then the \<^verbatim>\<open>Get\<close> and \<^verbatim>\<open>Unsubscribe\<close> calls of the node operations, which never
  store a variable and never sweep; then, when the node operations have all been processed
  (outcome \<open>Done\<close>), \<^verbatim>\<open>GarbageCollect\<close>, once, as the last call. A node operation that
  panics ends the call there, and the sweep is not reached.
\<close>

lemma ApplyTreeMutation_store_calls:
  assumes "reachable s" and "node_at s qt = Some q"
  shows "(\<exists>fuel r s'. ApplyTreeMutation fuel qt m s = Some (r, s')) \<and>
    (\<forall>fuel r s'. ApplyTreeMutation fuel qt m s = Some (r, s') \<longrightarrow>
       (\<exists>mid. list_all is_ref_call mid \<and>
          calls (VariableStore s')
            = calls (VariableStore s) @ map CallPut (mut_Variables m) @ mid
                @ (if r = Done then [CallGarbageCollect] else [])))"
  using ApplyTreeMutation_returns[OF reachable_tree_ok[OF assms(1)]]
    ApplyTreeMutation_calls[OF assms(2)]
  by blast

subsection \<open>Instances\<close>

lemma applyNodeMutations_append:
  "applyNodeMutations fuel qt (xs @ ys) s =
     (case applyNodeMutations fuel qt xs s of
        Some (Done, s1) \<Rightarrow> applyNodeMutations fuel qt ys s1
      | other \<Rightarrow> other)"
proof (induction xs arbitrary: s)
  case Nil
  then show ?case by simp
next
  case (Cons aqn xs)
  show ?case
  proof (cases "applyNodeMutation fuel qt aqn s")
    case None
    then show ?thesis by simp
  next
    case (Some rs)
    obtain r s1 where rs: "rs = (r, s1)" by (cases rs)
    show ?thesis using Some rs Cons.IH[of s1] by (cases r) simp_all
  qed
qed

text \<open>
  The two rules of the loop of \<^verbatim>\<open>ApplyTreeMutation\<close>. When it has worked through the
  operations \<open>before\<close> and stands in state \<open>s\<close>: an operation whose target id is not in
  the root index is skipped, the operations after it run from the very state \<open>s\<close>, so
  nothing was printed and nothing in the tree changed; and when \<^verbatim>\<open>AddChild\<close> returns an
  error, the operations after it run all the same, from the state that \<^verbatim>\<open>AddChild\<close> left,
  with the error printed.
\<close>

lemma applyNodeMutations_skips_and_continues:
  assumes "applyNodeMutations fuel qt before s0 = Some (Done, s)"
  shows "(lookupNode qt (aqn_NodeId aqn) s = Inr None \<longrightarrow>
            applyNodeMutations fuel qt (before @ aqn # rest) s0
              = applyNodeMutations fuel qt rest s) \<and>
         (\<forall>nod data err s1.
            lookupNode qt (aqn_NodeId aqn) s = Inr (Some nod) \<and>
            aqn_Operation aqn = SUBTREE_ADD_CHILD \<and> aqn_Node aqn = Some data \<and>
            AddChild nod data s = (Failed err, s1) \<longrightarrow>
            applyNodeMutations fuel qt (before @ aqn # rest) s0
              = applyNodeMutations fuel qt rest (s1\<lparr>stdout := stdout s1 @ [err]\<rparr>))"
  using assms by (simp add: applyNodeMutations_append applyNodeMutation_def)

lemma reachable_ex_tree_sub: "reachable ex_tree_sub"
  unfolding ex_tree_sub_def ex_tree_def
  by (intro reach_Subscribe[OF _ surjective_pairing] reach_New)

lemma applyNodeMutations_skips_and_continues_instance:
  "applyNodeMutations 1 0 [] ex_tree_sub = Some (Done, ex_tree_sub) \<and>
   lookupNode 0 (aqn_NodeId ex_op_absent) ex_tree_sub = Inr None \<and>
   applyNodeMutations 1 0 ([] @ ex_op_absent # [ex_op_invalid, ex_op_count]) ex_tree_sub
     = applyNodeMutations 1 0 [ex_op_invalid, ex_op_count] ex_tree_sub \<and>
   applyNodeMutations 1 0 [ex_op_absent] ex_tree_sub = Some (Done, ex_tree_sub) \<and>
   lookupNode 0 (aqn_NodeId ex_op_invalid) ex_tree_sub = Inr (Some 0) \<and>
   aqn_Operation ex_op_invalid = SUBTREE_ADD_CHILD \<and>
   aqn_Node ex_op_invalid = Some ex_invalid_nested \<and>
   fst (AddChild 0 ex_invalid_nested ex_tree_sub) = Failed UnknownField \<and>
   applyNodeMutations 1 0 ([ex_op_absent] @ ex_op_invalid # [ex_op_count]) ex_tree_sub
     = applyNodeMutations 1 0 [ex_op_count]
         (snd (AddChild 0 ex_invalid_nested ex_tree_sub)
            \<lparr>stdout := stdout (snd (AddChild 0 ex_invalid_nested ex_tree_sub)) @ [UnknownField]\<rparr>) \<and>
   map_option (\<lambda>(r, s). (r, lookupNode 0 8 s, stdout s))
       (applyNodeMutations 1 0 [ex_op_absent, ex_op_invalid, ex_op_count] ex_tree_sub)
     = Some (Done, Inr (Some 2), [UnknownField])"
proof -
  have 0: "applyNodeMutations 1 0 [] ex_tree_sub = Some (Done, ex_tree_sub)" by simp
  have 1: "lookupNode 0 (aqn_NodeId ex_op_absent) ex_tree_sub = Inr None" by code_simp
  have 2: "applyNodeMutations 1 0 [ex_op_absent] ex_tree_sub = Some (Done, ex_tree_sub)"
    using 1 by (simp add: applyNodeMutation_def)
  have 3: "lookupNode 0 (aqn_NodeId ex_op_invalid) ex_tree_sub = Inr (Some 0)" by code_simp
  have 4: "aqn_Operation ex_op_invalid = SUBTREE_ADD_CHILD"
    "aqn_Node ex_op_invalid = Some ex_invalid_nested"
    by (simp_all add: ex_op_invalid_def)
  have 5: "fst (AddChild 0 ex_invalid_nested ex_tree_sub) = Failed UnknownField" by code_simp
  have 6: "AddChild 0 ex_invalid_nested ex_tree_sub
             = (Failed UnknownField, snd (AddChild 0 ex_invalid_nested ex_tree_sub))"
    using 5 by (metis prod.collapse)
  have 7: "map_option (\<lambda>(r, s). (r, lookupNode 0 8 s, stdout s))
       (applyNodeMutations 1 0 [ex_op_absent, ex_op_invalid, ex_op_count] ex_tree_sub)
     = Some (Done, Inr (Some 2), [UnknownField])" by code_simp
  note a = applyNodeMutations_skips_and_continues[OF 0, of ex_op_absent "[ex_op_invalid, ex_op_count]"]
  note b = applyNodeMutations_skips_and_continues[OF 2, of ex_op_invalid "[ex_op_count]"]
  from a 1 have A: "applyNodeMutations 1 0 ([] @ ex_op_absent # [ex_op_invalid, ex_op_count]) ex_tree_sub
     = applyNodeMutations 1 0 [ex_op_invalid, ex_op_count] ex_tree_sub" by blast
  from b 3 4 6 have B: "applyNodeMutations 1 0 ([ex_op_absent] @ ex_op_invalid # [ex_op_count]) ex_tree_sub
     = applyNodeMutations 1 0 [ex_op_count]
         (snd (AddChild 0 ex_invalid_nested ex_tree_sub)
            \<lparr>stdout := stdout (snd (AddChild 0 ex_invalid_nested ex_tree_sub)) @ [UnknownField]\<rparr>)"
    by blast
  show ?thesis using 0 1 A 2 3 4 5 B 7 by blast
qed

lemma ApplyTreeMutation_store_calls_instance:
  "reachable ex_tree_sub \<and> node_at ex_tree_sub 0 = Some (heap ex_tree_sub ! 0) \<and>
   map_option fst (ApplyTreeMutation 2 0 ex_batch ex_tree_sub) = Some Done \<and>
   (\<exists>mid. list_all is_ref_call mid \<and>
      calls (VariableStore (snd (the (ApplyTreeMutation 2 0 ex_batch ex_tree_sub))))
        = calls (VariableStore ex_tree_sub) @ map CallPut (mut_Variables ex_batch) @ mid
            @ [CallGarbageCollect]) \<and>
   calls (VariableStore (snd (the (ApplyTreeMutation 2 0 ex_batch ex_tree_sub))))
     = [CallPut (ASTVariable 1 ''x''), CallGet 1, CallUnsubscribe 1, CallGarbageCollect]"
proof -
  have 1: "node_at ex_tree_sub 0 = Some (heap ex_tree_sub ! 0)" by code_simp
  have 2: "map_option fst (ApplyTreeMutation 2 0 ex_batch ex_tree_sub) = Some Done" by code_simp
  then obtain s' where 3: "ApplyTreeMutation 2 0 ex_batch ex_tree_sub = Some (Done, s')"
    by (cases "ApplyTreeMutation 2 0 ex_batch ex_tree_sub") auto
  have 4: "calls (VariableStore (snd (the (ApplyTreeMutation 2 0 ex_batch ex_tree_sub))))
     = [CallPut (ASTVariable 1 ''x''), CallGet 1, CallUnsubscribe 1, CallGarbageCollect]"
    by code_simp
  from ApplyTreeMutation_store_calls[OF reachable_ex_tree_sub 1, of ex_batch] 3
  have "\<exists>mid. list_all is_ref_call mid \<and>
      calls (VariableStore s')
        = calls (VariableStore ex_tree_sub) @ map CallPut (mut_Variables ex_batch) @ mid
            @ [CallGarbageCollect]"
    by fastforce
  then show ?thesis using reachable_ex_tree_sub 1 2 3 4 by simp
qed

theorem C9_success_witness:
  "reachable ex_tree_sub \<and> fst (AddChild 0 ex_user_with_name ex_tree_sub) = Done \<and>
   subscribers (heap ex_tree_sub ! 0) = [0] \<and> delivered ex_tree_sub = [] \<and>
   length (heap ex_tree_sub) = 1 \<and>
   Id (heap (snd (AddChild 0 ex_user_with_name ex_tree_sub)) ! 1) = data_Id ex_user_with_name \<and>
   Parent (heap (snd (AddChild 0 ex_user_with_name ex_tree_sub)) ! 1) = Some 0 \<and>
   delivered (snd (AddChild 0 ex_user_with_name ex_tree_sub))
     = [(0, 0, QTNodeUpdate Operation_AddChild (Some 1))]"
proof -
  have 1: "fst (AddChild 0 ex_user_with_name ex_tree_sub) = Done" by code_simp
  then have 2: "AddChild 0 ex_user_with_name ex_tree_sub
      = (Done, snd (AddChild 0 ex_user_with_name ex_tree_sub))"
    by (metis prod.collapse)
  have 3: "subscribers (heap ex_tree_sub ! 0) = [0]" "delivered ex_tree_sub = []"
    "length (heap ex_tree_sub) = 1"
    by code_simp+
  from C9_success_publishes_one_AddChild[OF reachable_ex_tree_sub 2] 3
  show ?thesis using reachable_ex_tree_sub 1 by simp
qed

theorem C10_rollback_witness:
  "reachable ex_tree_sub \<and>
   (\<exists>nnod s1. validateChild 0 ex_invalid_nested ex_tree_sub = Inr (nnod, s1)) \<and>
   fst (AddChild 0 ex_invalid_nested ex_tree_sub) = Failed UnknownField \<and>
   subscribers (heap ex_tree_sub ! 0) = [0] \<and> delivered ex_tree_sub = [] \<and>
   length (heap ex_tree_sub) = 1 \<and>
   delivered (snd (AddChild 0 ex_invalid_nested ex_tree_sub))
     = [(0, 0, QTNodeUpdate Operation_DelChild (Some 1))]"
proof -
  have 1: "fst (AddChild 0 ex_invalid_nested ex_tree_sub) = Failed UnknownField" by code_simp
  then have 2: "AddChild 0 ex_invalid_nested ex_tree_sub
      = (Failed UnknownField, snd (AddChild 0 ex_invalid_nested ex_tree_sub))"
    by (metis prod.collapse)
  have "\<not> isl (validateChild 0 ex_invalid_nested ex_tree_sub)" by code_simp
  then obtain nnod s1 where 4: "validateChild 0 ex_invalid_nested ex_tree_sub = Inr (nnod, s1)"
    by (cases "validateChild 0 ex_invalid_nested ex_tree_sub") auto
  have 3: "subscribers (heap ex_tree_sub ! 0) = [0]" "delivered ex_tree_sub = []"
    "length (heap ex_tree_sub) = 1"
    by code_simp+
  from C10_rollback_publishes_DelChild_only[OF reachable_ex_tree_sub 4 2] 3
  show ?thesis using reachable_ex_tree_sub 1 4 by auto
qed

subsection \<open>What holds next to the departures\<close>

text \<open>
  The duplicate test works on the node that owns the index: there an id that the index
  holds is refused and nothing changes.
\<close>

lemma AddChild_duplicate_at_index_owner:
  assumes "node_at s qt = Some q" and "RootNodeMap q = Some m" and "m (data_Id d) = Some a"
  shows "AddChild qt d s = (Failed DuplicateNodeId, s)"
proof -
  have "validateChild qt d s = Inl (Failed DuplicateNodeId, s)"
    using assms by (simp add: validateChild_def)
  then show ?thesis by (cases d) simp
qed

text \<open>C3 does not depend on the fuel: the panic is reached with any fuel from 3 on.\<close>

lemma Dispose_two_children_any_fuel:
  assumes "3 \<le> fuel"
  shows "map_option fst (Dispose fuel (Some 1) ex_two_children) = Some Panic"
proof -
  have "map_option fst (Dispose 3 (Some 1) ex_two_children) = Some Panic" by code_simp
  then obtain y where y: "Dispose 3 (Some 1) ex_two_children = Some y" "fst y = Panic"
    by (cases "Dispose 3 (Some 1) ex_two_children") auto
  from Dispose_fuel_mono(1)[rule_format, OF y(1) assms] y(2) show ?thesis by simp
qed

text \<open>
  The guard of line 71: a delete operation aimed at id 0, or at the node that is the
  root, changes nothing.
\<close>

lemma delete_guard:
  assumes "aqn_Operation aqn = SUBTREE_DELETE"
    and "aqn_NodeId aqn = 0 \<or> lookupNode qt (aqn_NodeId aqn) s = Inr (Root (heap s ! qt))"
  shows "applyNodeMutation fuel qt aqn s = Some (Done, s) \<or>
         applyNodeMutation fuel qt aqn s = Some (Panic, s)"
  using assms by (auto simp: applyNodeMutation_def split: sum.splits option.splits)

text \<open>
  The clean-up of lines 148 to 150 releases what \<open>argMap\<close> holds. When the arguments in
  front of the one whose variable is missing have names that differ from each other,
  \<open>argMap\<close> holds every reference the call has acquired, and the reference counts are
  back where they were.
\<close>

lemma refs_release:
  "refs (fold (\<lambda>marg. Unsubscribe (snd marg)) argMap vs) i = refs vs i - held argMap i"
  by (induction argMap arbitrary: vs) (auto simp: held_def Unsubscribe_def)

lemma update_fresh_key: "k \<notin> fst ` set al \<Longrightarrow> AList.update k v al = al @ [(k, v)]"
  by (induction al) auto

lemma refs_acquireArguments_None:
  assumes "acquireArguments args argMap vs = (None, vs')"
    and "distinct (map arg_Name (takeWhile (\<lambda>a. bindings vs (arg_VariableId a) \<noteq> None) args))"
    and "arg_Name ` set (takeWhile (\<lambda>a. bindings vs (arg_VariableId a) \<noteq> None) args)
           \<inter> fst ` set argMap = {}"
  shows "refs vs' i = refs vs i - held argMap i"
  using assms
proof (induction args arbitrary: argMap vs)
  case Nil
  then show ?case by simp
next
  case (Cons arg args)
  show ?case
  proof (cases "bindings vs (arg_VariableId arg)")
    case None
    then show ?thesis using Cons.prems(1) by (auto simp: Get_def refs_release)
  next
    case (Some v)
    let ?vs1 = "vs\<lparr>refs := (refs vs)(arg_VariableId arg := Suc (refs vs (arg_VariableId arg))),
                   calls := calls vs @ [CallGet (arg_VariableId arg)]\<rparr>"
    let ?am1 = "AList.update (arg_Name arg) (VariableReference (arg_VariableId arg)) argMap"
    have fresh: "arg_Name arg \<notin> fst ` set argMap" using Cons.prems(3) Some by auto
    then have am1: "?am1 = argMap @ [(arg_Name arg, VariableReference (arg_VariableId arg))]"
      by (rule update_fresh_key)
    have run: "acquireArguments args ?am1 ?vs1 = (None, vs')"
      using Cons.prems(1) Some by (simp add: Get_def)
    have d: "distinct (map arg_Name (takeWhile (\<lambda>a. bindings ?vs1 (arg_VariableId a) \<noteq> None) args))"
      using Cons.prems(2) Some by simp
    have e: "arg_Name ` set (takeWhile (\<lambda>a. bindings ?vs1 (arg_VariableId a) \<noteq> None) args)
           \<inter> fst ` set ?am1 = {}"
      using Cons.prems(2,3) Some unfolding am1 by auto
    have "refs vs' i = refs ?vs1 i - held ?am1 i" using Cons.IH[OF run d e] .
    then show ?thesis unfolding am1 by (simp add: held_def)
  qed
qed

lemma validateChild_UnknownVariable_releases:
  assumes "validateChild qt d s = Inl (Failed UnknownVariable, s')"
    and "distinct (map arg_Name
           (takeWhile (\<lambda>a. bindings (VariableStore s) (arg_VariableId a) \<noteq> None) (data_Args d)))"
  shows "heap s' = heap s \<and> refs (VariableStore s') = refs (VariableStore s) \<and>
         AddChild qt d s = (Failed UnknownVariable, s')"
proof -
  have "refs (VariableStore s') i = refs (VariableStore s) i" for i
    using assms(1) refs_acquireArguments_None[OF _ assms(2), of "[]" _ i]
    by (auto simp: validateChild_def held_def
        split: option.splits if_splits TypeDefinition.splits sum.splits prod.splits)
  then have "refs (VariableStore s') = refs (VariableStore s)" by (rule ext)
  moreover have "heap s' = heap s" using validateChild_Inl(1)[OF assms(1)] .
  moreover have "AddChild qt d s = (Failed UnknownVariable, s')"
    using assms(1) by (cases d) simp
  ultimately show ?thesis by simp
qed

end
